theory Spec2Isabelle
  imports Main "HOL-Library.Char_ord" "HOL-Library.List_Lexorder"
begin

section \<open>Strings and characters\<close>

text \<open>
  A JavaScript string is modelled as an Isabelle \<open>string\<close>. Each \<open>char\<close> stands for one
  code unit in the range U+0000..U+00FF, so the character classes of the regular
  expressions below are the ECMAScript classes cut down to that range.
\<close>

text \<open>The class \<open>\s\<close> (and the set removed by \<open>String.prototype.trim\<close>): TAB, LF, VT, FF,
  CR, SPACE and NO-BREAK SPACE.\<close>

definition is_space :: "char \<Rightarrow> bool" where
  "is_space c = (c \<in> set [CHR 0x09, CHR 0x0A, CHR 0x0B, CHR 0x0C, CHR 0x0D, CHR 0x20, CHR 0xA0])"

text \<open>Line terminators; the class \<open>.\<close> is every character but these.\<close>

definition is_line_term :: "char \<Rightarrow> bool" where
  "is_line_term c = (c = CHR 0x0A \<or> c = CHR 0x0D)"

definition is_dot :: "char \<Rightarrow> bool" where
  "is_dot c = (\<not> is_line_term c)"

definition is_hash :: "char \<Rightarrow> bool" where
  "is_hash c = (c = CHR ''#'')"

text \<open>The class \<open>\w\<close>: ASCII letters, digits and the underscore.\<close>

definition is_word :: "char \<Rightarrow> bool" where
  "is_word c = (let n = (of_char c :: nat) in
     (48 \<le> n \<and> n \<le> 57) \<or> (65 \<le> n \<and> n \<le> 90) \<or> n = 95 \<or> (97 \<le> n \<and> n \<le> 122))"

text \<open>\<open>toLowerCase\<close> and \<open>toUpperCase\<close> on one code unit of the range.\<close>

definition to_lower :: "char \<Rightarrow> char" where
  "to_lower c = (let n = (of_char c :: nat) in
     if (65 \<le> n \<and> n \<le> 90) \<or> (192 \<le> n \<and> n \<le> 222 \<and> n \<noteq> 215)
     then char_of (n + 32) else c)"

definition toLowerCase :: "string \<Rightarrow> string" where
  "toLowerCase s = map to_lower s"

definition startsWith :: "string \<Rightarrow> string \<Rightarrow> bool" where
  "startsWith s p = (take (length p) s = p)"


definition trim :: "string \<Rightarrow> string" where
  "trim s = rev (dropWhile is_space (rev (dropWhile is_space s)))"

text \<open>\<open>Array.prototype.join\<close> on a list of strings.\<close>

fun join :: "string \<Rightarrow> string list \<Rightarrow> string" where
  "join sep [] = []"
| "join sep [x] = x"
| "join sep (x # y # ys) = x @ sep @ join sep (y # ys)"

text \<open>\<open>s.split(sep)\<close> for a one-character separator: the pieces between the separators,
  empty pieces included.\<close>

fun split_acc :: "char \<Rightarrow> string \<Rightarrow> string \<Rightarrow> string list" where
  "split_acc sep acc [] = [rev acc]"
| "split_acc sep acc (c # cs) =
     (if c = sep then rev acc # split_acc sep [] cs else split_acc sep (c # acc) cs)"

definition split :: "char \<Rightarrow> string \<Rightarrow> string list" where
  "split sep s = split_acc sep [] s"

text \<open>\<open>s.replace(/pat/g, rep)\<close> for a literal, non-empty pattern: occurrences are replaced
  from left to right and do not overlap.\<close>

fun replace_all :: "string \<Rightarrow> string \<Rightarrow> string \<Rightarrow> string" where
  "replace_all pat rep [] = []"
| "replace_all pat rep (c # cs) =
     (if take (length pat) (c # cs) = pat
      then rep @ replace_all pat rep (drop (length pat - 1) cs)
      else c # replace_all pat rep cs)"

text \<open>Decimal rendering of a counter, as string concatenation with a number gives.\<close>

definition digit :: "nat \<Rightarrow> char" where
  "digit d = char_of (48 + d)"

fun decimal :: "nat \<Rightarrow> string" where
  "decimal n = (if n < 10 then [digit n] else decimal (n div 10) @ [digit (n mod 10)])"

declare decimal.simps [simp del]

section \<open>A backtracking matcher for the regular expressions of the sources\<close>

text \<open>
  The regular expressions of the sources are sequences of literals, anchors and
  quantified character classes. An expression is a list of atoms:
  \<^item> \<open>Lit s\<close>: the literal \<open>s\<close>;
  \<^item> \<open>Rep cls lo hi greedy\<close>: between \<open>lo\<close> and \<open>hi\<close> characters of the class
    (\<open>hi = None\<close>: unbounded), the longest run first when greedy, the shortest first when
    lazy;
  \<^item> \<open>Bol\<close>, \<open>Eol\<close>: \<open>^\<close> and \<open>$\<close> without the \<open>m\<close> flag; \<open>BolM\<close>, \<open>EolM\<close>: with it.
  \<open>bt\<close> is the backtracking search at one start position: \<open>pre\<close> is the input before the
  position, reversed, \<open>rest\<close> the input from it. The result is the text every atom
  consumed, in order, for the first successful alternative in the order ECMAScript tries
  them.
\<close>

datatype atom =
    Lit string
  | Rep "char \<Rightarrow> bool" nat "nat option" bool
  | Bol | Eol | BolM | EolM

fun first_some :: "('a \<Rightarrow> 'b option) \<Rightarrow> 'a list \<Rightarrow> 'b option" where
  "first_some f [] = None"
| "first_some f (x # xs) = (case f x of Some y \<Rightarrow> Some y | None \<Rightarrow> first_some f xs)"

definition candidates :: "bool \<Rightarrow> nat \<Rightarrow> nat \<Rightarrow> nat list" where
  "candidates greedy lo hi = (if greedy then rev [lo..<Suc hi] else [lo..<Suc hi])"

fun bt :: "atom list \<Rightarrow> string \<Rightarrow> string \<Rightarrow> string list option" where
  "bt [] pre rest = Some []"
| "bt (Lit s # as) pre rest =
     (if take (length s) rest = s
      then map_option ((#) s) (bt as (rev s @ pre) (drop (length s) rest))
      else None)"
| "bt (Rep cls lo hi greedy # as) pre rest =
     (let n = length (takeWhile cls rest);
          m = (case hi of None \<Rightarrow> n | Some h \<Rightarrow> min h n)
      in first_some
           (\<lambda>k. map_option ((#) (take k rest)) (bt as (rev (take k rest) @ pre) (drop k rest)))
           (candidates greedy lo m))"
| "bt (Bol # as) pre rest =
     (if pre = [] then map_option ((#) []) (bt as pre rest) else None)"
| "bt (Eol # as) pre rest =
     (if rest = [] then map_option ((#) []) (bt as pre rest) else None)"
| "bt (BolM # as) pre rest =
     (if pre = [] \<or> is_line_term (hd pre) then map_option ((#) []) (bt as pre rest) else None)"
| "bt (EolM # as) pre rest =
     (if rest = [] \<or> is_line_term (hd rest) then map_option ((#) []) (bt as pre rest) else None)"

text \<open>\<open>re.exec(s)\<close> from a start position: the leftmost position at which \<open>bt\<close> succeeds.
  The result is the text before the match, the atoms' texts, and the text after it.\<close>

fun exec_from :: "atom list \<Rightarrow> string \<Rightarrow> string \<Rightarrow> (string \<times> string list \<times> string) option" where
  "exec_from re pre [] =
     (case bt re pre [] of
        Some segs \<Rightarrow> Some (rev pre, segs, [])
      | None \<Rightarrow> None)"
| "exec_from re pre (c # cs) =
     (case bt re pre (c # cs) of
        Some segs \<Rightarrow> Some (rev pre, segs, drop (length (concat segs)) (c # cs))
      | None \<Rightarrow> exec_from re (c # pre) cs)"

definition exec :: "atom list \<Rightarrow> string \<Rightarrow> (string \<times> string list \<times> string) option" where
  "exec re s = exec_from re [] s"

text \<open>\<open>s.replace(re, rep)\<close> for an expression without the \<open>g\<close> flag and a replacement
  text without \<open>$\<close>: the first match is replaced.\<close>

definition replace_first :: "atom list \<Rightarrow> string \<Rightarrow> string \<Rightarrow> string" where
  "replace_first re rep s =
     (case exec re s of
        None \<Rightarrow> s
      | Some (front, segs, rear) \<Rightarrow> front @ rep @ rear)"

subsection \<open>Facts about the matcher\<close>

lemma first_some_SomeD: "first_some f xs = Some y \<Longrightarrow> \<exists>x\<in>set xs. f x = Some y"
  by (induction xs) (auto split: option.splits)

lemma set_candidates: "set (candidates g lo hi) = {lo..hi}"
  by (auto simp: candidates_def)

lemma bt_Rep_SomeD:
  assumes "bt (Rep cls lo hi g # as) pre rest = Some r"
  shows "\<exists>k r'. r = take k rest # r' \<and> lo \<le> k \<and> k \<le> length (takeWhile cls rest) \<and>
           (\<forall>h. hi = Some h \<longrightarrow> k \<le> h) \<and>
           bt as (rev (take k rest) @ pre) (drop k rest) = Some r'"
proof -
  define n where "n = length (takeWhile cls rest)"
  define m where "m = (case hi of None \<Rightarrow> n | Some h \<Rightarrow> min h n)"
  from assms obtain k where k: "k \<in> set (candidates g lo m)"
    and s: "map_option ((#) (take k rest)) (bt as (rev (take k rest) @ pre) (drop k rest)) = Some r"
    unfolding bt.simps Let_def n_def m_def by (blast dest: first_some_SomeD)
  from k have "lo \<le> k" "k \<le> m" by (simp_all add: set_candidates)
  moreover have "m \<le> n" "\<forall>h. hi = Some h \<longrightarrow> m \<le> h"
    by (auto simp: m_def split: option.splits)
  ultimately show ?thesis using s unfolding n_def by fastforce
qed

lemma bt_prefix: "bt re pre rest = Some segs \<Longrightarrow> take (length (concat segs)) rest = concat segs"
proof (induction re pre rest arbitrary: segs rule: bt.induct)
  case (1 pre rest)
  then show ?case by simp
next
  case (2 s as pre rest)
  then obtain r where r: "bt as (rev s @ pre) (drop (length s) rest) = Some r" "segs = s # r"
    and s: "take (length s) rest = s"
    by (auto split: if_splits)
  from "2.IH"[OF s r(1)] have "take (length (concat r)) (drop (length s) rest) = concat r" .
  then show ?case using r(2) s by (metis append_take_drop_id concat.simps(2) length_append take_add)
next
  case (3 cls lo hi greedy as pre rest)
  define n where "n = length (takeWhile cls rest)"
  define m where "m = (case hi of None \<Rightarrow> n | Some h \<Rightarrow> min h n)"
  from "3.prems" obtain k where k: "k \<in> set (candidates greedy lo m)"
    and s: "map_option ((#) (take k rest)) (bt as (rev (take k rest) @ pre) (drop k rest)) = Some segs"
    unfolding bt.simps Let_def n_def m_def by (blast dest: first_some_SomeD)
  then obtain r where r: "bt as (rev (take k rest) @ pre) (drop k rest) = Some r" "segs = take k rest # r"
    by auto
  have "k \<le> m" using k by (auto simp: candidates_def split: if_splits)
  moreover have "m \<le> n" by (auto simp: m_def split: option.splits)
  moreover have "n \<le> length rest" unfolding n_def by (rule length_takeWhile_le)
  ultimately have kn: "k \<le> length rest" by simp
  from "3.IH"[OF n_def m_def r(1)]
  have "take (length (concat r)) (drop k rest) = concat r" .
  then show ?case using r(2) kn
    by (metis append_take_drop_id concat.simps(2) length_append length_take min.absorb2 take_add)
qed (auto split: if_splits)


lemma exec_from_split:
  "exec_from re pre rest = Some (front, segs, rear) \<Longrightarrow>
   \<exists>skipped. rest = skipped @ concat segs @ rear \<and> front = rev pre @ skipped"
proof (induction rest arbitrary: pre)
  case Nil
  then obtain s where "bt re pre [] = Some s" "segs = s" "rear = []" "front = rev pre"
    by (auto split: option.splits)
  moreover from this bt_prefix[of re pre "[]" s] have "concat s = []" by simp
  ultimately show ?case by simp
next
  case (Cons c cs)
  show ?case
  proof (cases "bt re pre (c # cs)")
    case None
    with Cons.prems have "exec_from re (c # pre) cs = Some (front, segs, rear)" by simp
    from Cons.IH[OF this] obtain skipped where
      "cs = skipped @ concat segs @ rear" "front = rev (c # pre) @ skipped" by blast
    then show ?thesis by (intro exI[of _ "c # skipped"]) simp
  next
    case (Some s)
    with Cons.prems have e: "segs = s" "front = rev pre"
      "rear = drop (length (concat s)) (c # cs)" by auto
    from bt_prefix[OF Some] have "c # cs = concat s @ drop (length (concat s)) (c # cs)"
      by (metis append_take_drop_id)
    then show ?thesis using e by (intro exI[of _ "[]"]) simp
  qed
qed

lemma bt_Lit_SomeD: "bt (Lit s # as) pre rest = Some segs \<Longrightarrow> \<exists>r. segs = s # r"
  by (auto split: if_splits)

section \<open>Table of contents (docs.ts: unescapeTitle, extractToc)\<close>

record TocItem =
  toc_id :: string
  toc_text :: string
  toc_level :: nat

text \<open>\<open>unescapeTitle\<close>: seven global replacements, applied in the order of the source.\<close>

definition unescapeTitle :: "string \<Rightarrow> string" where
  "unescapeTitle v =
     replace_all ''&amp;'' ''&''
       (replace_all ''&gt;'' ''>''
         (replace_all ''&lt;'' ''<''
           (replace_all [CHR 0x5C, CHR '']''] '']''
             (replace_all [CHR 0x5C, CHR ''[''] ''[''
               (replace_all [CHR 0x5C, CHR ''>''] ''>''
                 (replace_all [CHR 0x5C, CHR ''<''] ''<'' v))))))"

subsection \<open>The slugger of the library github-slugger\<close>

text \<open>
  The library is not part of the repository; its class is modelled from its published
  source. \<open>slugger_removed\<close> is the character class its \<open>slug\<close> function deletes, on the
  code units up to U+00FF: everything but letters, digits, the underscore, the hyphen
  and the space.
\<close>

definition slugger_removed :: "char \<Rightarrow> bool" where
  "slugger_removed c = (let n = (of_char c :: nat) in
     n \<le> 0x1F \<or> (0x21 \<le> n \<and> n \<le> 0x2C) \<or> n = 0x2E \<or> n = 0x2F \<or>
     (0x3A \<le> n \<and> n \<le> 0x40) \<or> (0x5B \<le> n \<and> n \<le> 0x5E) \<or> n = 0x60 \<or>
     (0x7B \<le> n \<and> n \<le> 0xA9) \<or> (0xAB \<le> n \<and> n \<le> 0xB4) \<or>
     (0xB6 \<le> n \<and> n \<le> 0xB9) \<or> (0xBB \<le> n \<and> n \<le> 0xBF) \<or> n = 0xD7 \<or> n = 0xF7)"

text \<open>\<open>slug(value, false)\<close>: lower case, delete the class, turn spaces into hyphens.\<close>

definition github_slug :: "string \<Rightarrow> string" where
  "github_slug v =
     map (\<lambda>c. if c = CHR '' '' then CHR ''-'' else c)
       (filter (\<lambda>c. \<not> slugger_removed c) (toLowerCase v))"

text \<open>The slugger's state is its \<open>occurrences\<close> object: the slugs handed out so far, each
  with a counter.\<close>

type_synonym occurrences = "(string \<times> nat) list"

definition has_own :: "occurrences \<Rightarrow> string \<Rightarrow> bool" where
  "has_own occ k = (k \<in> set (map fst occ))"

fun occ_set :: "string \<Rightarrow> nat \<Rightarrow> occurrences \<Rightarrow> occurrences" where
  "occ_set k v [] = [(k, v)]"
| "occ_set k v ((k', v') # occ) =
     (if k' = k then (k, v) # occ else (k', v') # occ_set k v occ)"

text \<open>The finitely many counters above the current one whose suffixed slug is taken:
  the loop of \<open>slug\<close> leaves one of them behind at every turn.\<close>

definition taken_above :: "occurrences \<Rightarrow> string \<Rightarrow> nat \<Rightarrow> nat set" where
  "taken_above occ originalSlug n = {k. n < k \<and> has_own occ (originalSlug @ ''-'' @ decimal k)}"

definition slug_measure :: "occurrences \<times> string \<times> string \<Rightarrow> nat" where
  "slug_measure = (\<lambda>(occ, originalSlug, result).
     card (taken_above occ originalSlug (the (map_of occ originalSlug)))
       + (if has_own occ result then 1 else 0))"

text \<open>The decimal rendering is injective, so the suffixed candidates of one slug are
  pairwise different and only finitely many of them are taken.\<close>

lemma digit_inj: "a < 10 \<Longrightarrow> b < 10 \<Longrightarrow> digit a = digit b \<Longrightarrow> a = b"
proof -
  assume a: "a < 10" and b: "b < 10" and e: "digit a = digit b"
  have "(of_char (digit a) :: nat) = (48 + a) mod 256" by (simp only: digit_def of_char_of)
  moreover have "(of_char (digit b) :: nat) = (48 + b) mod 256" by (simp only: digit_def of_char_of)
  ultimately have "(48 + a) mod 256 = (48 + b) mod 256" using e by simp
  moreover have "(48 + a) mod 256 = 48 + a" using a by (intro mod_less) arith
  moreover have "(48 + b) mod 256 = 48 + b" using b by (intro mod_less) arith
  ultimately show "a = b" by arith
qed

lemma decimal_nonempty: "decimal n \<noteq> []"
  by (subst decimal.simps) simp

lemma decimal_inj: "decimal n = decimal m \<Longrightarrow> n = m"
proof (induction n arbitrary: m rule: decimal.induct)
  case (1 n)
  show ?case
  proof (cases "n < 10")
    case True
    then have dn: "decimal n = [digit n]" by (subst decimal.simps) simp
    show ?thesis
    proof (cases "m < 10")
      case True
      then have "decimal m = [digit m]" by (subst decimal.simps) simp
      with dn "1.prems" have "digit n = digit m" by simp
      then show ?thesis using \<open>n < 10\<close> \<open>m < 10\<close> digit_inj by blast
    next
      case False
      then have "decimal m = decimal (m div 10) @ [digit (m mod 10)]" by (subst decimal.simps) simp
      with dn "1.prems" have "decimal (m div 10) = []" by simp
      then show ?thesis using decimal_nonempty by blast
    qed
  next
    case False
    then have dn: "decimal n = decimal (n div 10) @ [digit (n mod 10)]" by (subst decimal.simps) simp
    show ?thesis
    proof (cases "m < 10")
      case True
      then have "decimal m = [digit m]" by (subst decimal.simps) simp
      with dn "1.prems" have "decimal (n div 10) = []" by simp
      then show ?thesis using decimal_nonempty by blast
    next
      case m: False
      then have dm: "decimal m = decimal (m div 10) @ [digit (m mod 10)]" by (subst decimal.simps) simp
      from dn dm "1.prems" have e1: "decimal (n div 10) = decimal (m div 10)"
        and e2: "digit (n mod 10) = digit (m mod 10)" by simp_all
      from "1.IH"[OF False e1] have "n div 10 = m div 10" .
      moreover from e2 have "n mod 10 = m mod 10" by (intro digit_inj) simp_all
      ultimately show ?thesis by (metis div_mult_mod_eq)
    qed
  qed
qed

lemma has_own_map_of: "has_own occ k \<longleftrightarrow> map_of occ k \<noteq> None"
  by (simp add: has_own_def map_of_eq_None_iff)

lemma keys_occ_set:
  "map fst (occ_set k v occ) = (if k \<in> set (map fst occ) then map fst occ else map fst occ @ [k])"
  by (induction occ) (auto simp: rev_image_eqI)

lemma has_own_occ_set: "has_own (occ_set k v occ) x \<longleftrightarrow> has_own occ x \<or> x = k"
  unfolding has_own_def keys_occ_set by auto

lemma map_of_occ_set: "map_of (occ_set k v occ) k = Some v"
  by (induction occ) auto

lemma map_of_occ_set_other: "x \<noteq> k \<Longrightarrow> map_of (occ_set k v occ) x = map_of occ x"
  by (induction occ) auto

lemma finite_taken_above: "finite (taken_above occ s n)"
proof -
  have "taken_above occ s n \<subseteq> (\<lambda>k. s @ ''-'' @ decimal k) -` set (map fst occ)"
    by (auto simp: taken_above_def has_own_def)
  moreover have "inj (\<lambda>k. s @ ''-'' @ decimal k)"
    by (rule injI) (simp add: decimal_inj)
  ultimately show ?thesis
    by (meson finite_vimageI finite_subset finite_set)
qed

lemma taken_above_step:
  assumes "has_own occ s"
  shows "taken_above occ s n =
         (if has_own occ (s @ ''-'' @ decimal (Suc n)) then {Suc n} else {}) \<union>
         taken_above (occ_set s v occ) s (Suc n)"
proof -
  have "has_own (occ_set s v occ) x = has_own occ x" for x
    using assms by (auto simp: has_own_occ_set)
  moreover have "n < k \<longleftrightarrow> k = Suc n \<or> Suc n < k" for k by arith
  ultimately show ?thesis
    unfolding taken_above_def by (cases "has_own occ (s @ ''-'' @ decimal (Suc n))") auto
qed

function slug_loop :: "occurrences \<Rightarrow> string \<Rightarrow> string \<Rightarrow> occurrences \<times> string" where
  "slug_loop occ originalSlug result =
     (if has_own occ result then
        (case map_of occ originalSlug of
           None \<Rightarrow> (occ, result)
         | Some n \<Rightarrow>
             slug_loop (occ_set originalSlug (n + 1) occ) originalSlug
               (originalSlug @ ''-'' @ decimal (n + 1)))
      else (occ, result))"
  by pat_completeness auto
termination
proof (relation "measure slug_measure")
  show "wf (measure slug_measure)" by simp
next
  fix occ :: occurrences and originalSlug result :: string and n :: nat
  assume r: "has_own occ result" and m: "map_of occ originalSlug = Some n"
  let ?s = originalSlug
  let ?occ' = "occ_set ?s (n + 1) occ"
  let ?r' = "?s @ ''-'' @ decimal (n + 1)"
  have own: "has_own occ ?s" using m by (simp add: has_own_map_of)
  have step: "taken_above occ ?s n =
         (if has_own occ ?r' then {Suc n} else {}) \<union> taken_above ?occ' ?s (Suc n)"
    using taken_above_step[OF own, of n "n + 1"] by simp
  have notin: "Suc n \<notin> taken_above ?occ' ?s (Suc n)" by (simp add: taken_above_def)
  have r'eq: "has_own ?occ' ?r' = has_own occ ?r'" by (auto simp: has_own_occ_set)
  have "card (taken_above occ ?s n) =
        (if has_own occ ?r' then 1 else 0) + card (taken_above ?occ' ?s (Suc n))"
    using step notin finite_taken_above[of ?occ' ?s "Suc n"] by (auto simp del: One_nat_def)
  then have "slug_measure (?occ', ?s, ?r') < slug_measure (occ, ?s, result)"
    using r m r'eq by (simp add: slug_measure_def map_of_occ_set)
  then show "((?occ', ?s, ?r'), (occ, ?s, result)) \<in> measure slug_measure" by simp
qed

text \<open>
  The method \<open>slug\<close> of the class:
  \<^verbatim>\<open>
  let result = slug(value, maintainCase === true)
  const originalSlug = result
  while (own.call(self.occurrences, result)) {
    self.occurrences[originalSlug]++
    result = originalSlug + '-' + self.occurrences[originalSlug]
  }
  self.occurrences[result] = 0
  return result
  \<close>
  \<open>slug_loop\<close> is the while loop. It is entered with \<open>result = originalSlug\<close>, so the
  counter of \<open>originalSlug\<close> exists whenever the condition holds; the branch \<open>None\<close> is
  never taken from \<open>slug\<close>.
\<close>

definition slug :: "occurrences \<Rightarrow> string \<Rightarrow> string \<times> occurrences" where
  "slug occ v =
     (let originalSlug = github_slug v;
          (occ', result) = slug_loop occ originalSlug originalSlug
      in (result, occ_set result 0 occ'))"

subsection \<open>extractToc\<close>

text \<open>\<open>content.split(/\r?\n/)\<close>: a line ends at LF or at CR LF; a CR that no LF follows
  stays in its line.\<close>

fun split_lines_acc :: "string \<Rightarrow> string \<Rightarrow> string list" where
  "split_lines_acc acc [] = [rev acc]"
| "split_lines_acc acc (c # cs) =
     (if c = CHR 0x0A then rev acc # split_lines_acc [] cs
      else if c = CHR 0x0D then
        (case cs of
           [] \<Rightarrow> split_lines_acc (c # acc) cs
         | d # ds \<Rightarrow>
             if d = CHR 0x0A then rev acc # split_lines_acc [] ds
             else split_lines_acc (c # acc) cs)
      else split_lines_acc (c # acc) cs)"

definition split_lines :: "string \<Rightarrow> string list" where
  "split_lines content = split_lines_acc [] content"

text \<open>\<open>/^(#{2,3})\s+(.+)$/\<close>: group 1 is the text of atom 1, group 2 the text of atom 3.\<close>

definition heading_re :: "atom list" where
  "heading_re = [Bol, Rep is_hash 2 (Some 3) True, Rep is_space 1 None True,
                 Rep is_dot 1 None True, Eol]"

text \<open>\<open>/\s+#$/\<close>\<close>

definition trailing_hash_re :: "atom list" where
  "trailing_hash_re = [Rep is_space 1 None True, Lit ''#'', Eol]"

definition heading_match :: "string \<Rightarrow> string list option" where
  "heading_match line = map_option (\<lambda>(front, m, rear). m) (exec heading_re line)"

text \<open>The body of the \<open>for\<close> loop for a line that matched (\<open>m ! 1\<close> and \<open>m ! 3\<close> are the
  groups 1 and 2), and the loop itself; the slugger is threaded through the lines.\<close>

definition heading_level :: "string list \<Rightarrow> nat" where
  "heading_level m = length (m ! 1)"

definition heading_text :: "string list \<Rightarrow> string" where
  "heading_text m =
     (let textRaw = trim (replace_first trailing_hash_re [] (m ! 3))
      in unescapeTitle textRaw)"

definition toc_item :: "occurrences \<Rightarrow> string list \<Rightarrow> TocItem \<times> occurrences" where
  "toc_item slugger m =
     (let level = heading_level m;
          text = heading_text m;
          (ident, slugger') = slug slugger text
      in (\<lparr>toc_id = ident, toc_text = text, toc_level = level\<rparr>, slugger'))"

fun toc_loop :: "occurrences \<Rightarrow> string list \<Rightarrow> TocItem list" where
  "toc_loop slugger [] = []"
| "toc_loop slugger (line # lines) =
     (case heading_match line of
        None \<Rightarrow> toc_loop slugger lines
      | Some m \<Rightarrow>
          (let (item, slugger') = toc_item slugger m
           in item # toc_loop slugger' lines))"

definition extractToc :: "string \<Rightarrow> TocItem list" where
  "extractToc content = toc_loop [] (split_lines content)"

text \<open>The number of \<open>#\<close> characters a line starts with.\<close>

definition hash_run :: "string \<Rightarrow> nat" where
  "hash_run line = length (takeWhile is_hash line)"

text \<open>
  The collision rule in the words of the specification: a heading gets its plain slug
  when no earlier heading of the document has that anchor, and otherwise the first of
  the slug suffixed with \<open>-1\<close>, \<open>-2\<close>, \<dots> that no earlier heading has. Among the
  \<open>length used + 1\<close> suffixed candidates one is always free.
\<close>

definition first_free :: "string list \<Rightarrow> string \<Rightarrow> string" where
  "first_free used s =
     (if s \<notin> set used then s
      else case find (\<lambda>c. c \<notin> set used)
                  (map (\<lambda>k. s @ ''-'' @ decimal k) [1..<length used + 2]) of
             Some c \<Rightarrow> c
           | None \<Rightarrow> s)"

fun spec_ids :: "string list \<Rightarrow> string list \<Rightarrow> string list" where
  "spec_ids used [] = []"
| "spec_ids used (t # ts) =
     (let i = first_free used (github_slug t) in i # spec_ids (i # used) ts)"

text \<open>The invariant of the slugger's state: below the counter of a slug, every suffixed
  candidate has been handed out.\<close>

definition suffixed :: "string \<Rightarrow> nat \<Rightarrow> string" where
  "suffixed s k = s @ ''-'' @ decimal k"

definition slugger_inv :: "occurrences \<Rightarrow> bool" where
  "slugger_inv occ =
     (\<forall>s n j. map_of occ s = Some n \<and> 1 \<le> j \<and> j \<le> n \<longrightarrow> has_own occ (suffixed s j))"

text \<open>Example documents: two equal level-2 headings; headings of the levels 1, 2, 4 and
  3; a level-2 heading between code fences.\<close>

definition two_setup_doc :: string where
  "two_setup_doc = ''## Setup'' @ [CHR 0x0A] @ ''## Setup''"

definition mixed_levels_doc :: string where
  "mixed_levels_doc = ''# Title'' @ [CHR 0x0A] @ ''## Setup'' @ [CHR 0x0A] @ ''#### Deep''
     @ [CHR 0x0A] @ ''### Setup''"

definition fenced_doc :: string where
  "fenced_doc = ''```'' @ [CHR 0x0A] @ ''## Example'' @ [CHR 0x0A] @ ''```''"

section \<open>Paths (the POSIX half of Node's \<open>path\<close> module)\<close>

text \<open>
  The module is not part of the repository. Its functions are modelled from Node's
  implementation, on POSIX paths: \<open>normalizeString\<close> drops empty and \<open>.\<close> segments and
  lets a \<open>..\<close> segment take back the segment before it; above the root of an absolute
  path a \<open>..\<close> is dropped, in a relative path it is kept.
\<close>

fun normalize_segs :: "bool \<Rightarrow> string list \<Rightarrow> string list \<Rightarrow> string list" where
  "normalize_segs allowAboveRoot res [] = rev res"
| "normalize_segs allowAboveRoot res (seg # segs) =
     (if seg = [] \<or> seg = ''.'' then normalize_segs allowAboveRoot res segs
      else if seg = ''..'' then
        (case res of
           r # rs \<Rightarrow>
             if r \<noteq> ''..'' then normalize_segs allowAboveRoot rs segs
             else if allowAboveRoot then normalize_segs allowAboveRoot (''..'' # res) segs
             else normalize_segs allowAboveRoot res segs
         | [] \<Rightarrow>
             if allowAboveRoot then normalize_segs allowAboveRoot [''..''] segs
             else normalize_segs allowAboveRoot [] segs)
      else normalize_segs allowAboveRoot (seg # res) segs)"

definition normalizeString :: "string \<Rightarrow> bool \<Rightarrow> string" where
  "normalizeString path allowAboveRoot =
     join ''/'' (normalize_segs allowAboveRoot [] (split (CHR ''/'') path))"

definition isAbsolute :: "string \<Rightarrow> bool" where
  "isAbsolute path = (path \<noteq> [] \<and> hd path = CHR ''/'')"

text \<open>\<open>path.posix.normalize\<close>\<close>

definition normalize :: "string \<Rightarrow> string" where
  "normalize path =
     (if path = [] then ''.''
      else
        let trailingSeparator = (last path = CHR ''/'');
            p = normalizeString path (\<not> isAbsolute path)
        in if p = [] then (if isAbsolute path then ''/'' else if trailingSeparator then ''./'' else ''.'')
           else (if isAbsolute path then ''/'' else []) @ p @ (if trailingSeparator then ''/'' else []))"

text \<open>\<open>path.posix.join\<close>: the non-empty arguments joined by a slash, then normalised.\<close>

definition path_join :: "string list \<Rightarrow> string" where
  "path_join args =
     (let parts = filter (\<lambda>a. a \<noteq> []) args
      in if parts = [] then ''.'' else normalize (join ''/'' parts))"

text \<open>\<open>path.posix.resolve\<close>: the arguments are taken from the right until an absolute one
  is met; the working directory comes last.\<close>

fun resolve_acc :: "string list \<Rightarrow> string \<Rightarrow> string" where
  "resolve_acc [] resolvedPath = resolvedPath"
| "resolve_acc (p # ps) resolvedPath =
     (if p = [] then resolve_acc ps resolvedPath
      else if isAbsolute p then p @ ''/'' @ resolvedPath
      else resolve_acc ps (p @ ''/'' @ resolvedPath))"

definition path_resolve :: "string \<Rightarrow> string list \<Rightarrow> string" where
  "path_resolve cwd args =
     (let resolvedPath = resolve_acc (rev (cwd # args)) [];
          resolvedAbsolute = isAbsolute resolvedPath;
          p = normalizeString resolvedPath (\<not> resolvedAbsolute)
      in if resolvedAbsolute then ''/'' @ p
         else if p \<noteq> [] then p else ''.'')"

text \<open>
  \<open>path.posix.dirname\<close>: the text before the last slash that a segment follows; a slash
  at index 0 does not count.
\<close>

definition dirname :: "string \<Rightarrow> string" where
  "dirname path =
     (if path = [] then ''.''
      else
        let hasRoot = (hd path = CHR ''/'');
            u = dropWhile (\<lambda>c. c \<noteq> CHR ''/'') (dropWhile (\<lambda>c. c = CHR ''/'') (rev path))
        in if length u \<le> 1 then (if hasRoot then ''/'' else ''.'')
           else if hasRoot \<and> length u = 2 then ''//''
           else take (length u - 1) path)"

text \<open>\<open>path.posix.basename\<close> with one argument: the last segment, trailing slashes
  aside.\<close>

definition basename :: "string \<Rightarrow> string" where
  "basename path =
     rev (takeWhile (\<lambda>c. c \<noteq> CHR ''/'') (dropWhile (\<lambda>c. c = CHR ''/'') (rev path)))"

text \<open>
  \<open>path.posix.relative\<close>: both paths are resolved; the result climbs from \<open>from\<close> to the
  longest common directory and descends to \<open>to\<close>.
\<close>

fun common_prefix :: "'a list \<Rightarrow> 'a list \<Rightarrow> nat" where
  "common_prefix (x # xs) (y # ys) = (if x = y then Suc (common_prefix xs ys) else 0)"
| "common_prefix xs ys = 0"

definition path_relative :: "string \<Rightarrow> string \<Rightarrow> string \<Rightarrow> string" where
  "path_relative cwd from to =
     (let f = path_resolve cwd [from];
          t = path_resolve cwd [to];
          fs = filter (\<lambda>s. s \<noteq> []) (split (CHR ''/'') f);
          ts = filter (\<lambda>s. s \<noteq> []) (split (CHR ''/'') t);
          n = common_prefix fs ts
      in join ''/'' (replicate (length fs - n) ''..'' @ drop n ts))"

section \<open>The file system and the process\<close>

text \<open>
  A path names a readable file with its contents, a directory, a file that exists but
  cannot be read, or nothing. \<open>fs.readFileSync\<close> throws on everything but a readable
  file; the exception is the left summand of the result.
\<close>

datatype fs_entry = File string | Dir | Locked

datatype js_error = ENOENT string | EISDIR string | EACCES string | ParseError string

text \<open>The locales of \<open>lib/locales.ts\<close>; \<open>En\<close> is \<open>DEFAULT_LOCALE\<close>.\<close>

datatype Locale = En | Zh | Ja

definition DEFAULT_LOCALE :: Locale where
  "DEFAULT_LOCALE = En"

fun locale_key :: "Locale \<Rightarrow> string" where
  "locale_key En = ''en''"
| "locale_key Zh = ''zh''"
| "locale_key Ja = ''ja''"

fun localeDir :: "Locale \<Rightarrow> string" where
  "localeDir En = ''docs''"
| "localeDir Zh = ''docs/i18n/zh-CN''"
| "localeDir Ja = ''docs/i18n/ja-JP''"

definition localeBasePath :: "Locale \<Rightarrow> string" where
  "localeBasePath locale = (if locale = DEFAULT_LOCALE then [] else ''/'' @ locale_key locale)"

text \<open>The typed keys of \<open>FrontMatterData\<close>; a key that is absent is \<open>None\<close>. The other
  keys of a preamble are passed through and read by nothing here.\<close>

record FrontMatterData =
  fm_title :: "string option"
  fm_sidebar_label :: "string option"
  fm_sidebar_position :: "int option"
  fm_other :: "(string \<times> string) list"

text \<open>
  What a run depends on and the repository does not define:
  \<^item> \<open>cwd\<close>: \<open>process.cwd()\<close>;
  \<^item> \<open>files\<close>: the file system;
  \<^item> \<open>matter\<close>: the parser of the library gray-matter, from a file's text to its
    preamble and body; it throws on a malformed preamble;
  \<^item> \<open>changelogWarning\<close> and \<open>missingTranslation\<close>: the tables \<open>warnings\<close> of
    \<open>getLocaleWarning\<close> and \<open>UI_STRINGS[locale].missingTranslation\<close>, whose Chinese and
    Japanese texts lie outside the range of \<open>char\<close>.
\<close>

record env =
  cwd :: string
  files :: "string \<Rightarrow> fs_entry option"
  matter :: "string \<Rightarrow> js_error + (FrontMatterData \<times> string)"
  changelogWarning :: "Locale \<Rightarrow> string"
  missingTranslation :: "Locale \<Rightarrow> string"

definition existsSync :: "env \<Rightarrow> string \<Rightarrow> bool" where
  "existsSync e path = (files e path \<noteq> None)"

definition readFileSyncSafe :: "env \<Rightarrow> string \<Rightarrow> js_error + string" where
  "readFileSyncSafe e filePath =
     (case files e filePath of
        None \<Rightarrow> Inl (ENOENT filePath)
      | Some Dir \<Rightarrow> Inl (EISDIR filePath)
      | Some Locked \<Rightarrow> Inl (EACCES filePath)
      | Some (File source) \<Rightarrow> Inr source)"

section \<open>Include directives (docs.ts: processIncludeDirectives)\<close>

text \<open>\<open>/<!--\s*INCLUDE\s+(.+?)\s*-->/g\<close>: the whole match is the text of all atoms, group 1
  the text of atom 4.\<close>

definition include_re :: "atom list" where
  "include_re = [Lit ''<!--'', Rep is_space 0 None True, Lit ''INCLUDE'',
                 Rep is_space 1 None True, Rep is_dot 1 None False,
                 Rep is_space 0 None True, Lit ''-->'']"

text \<open>
  \<open>result.replace(pattern, replacement)\<close> with two strings: the first occurrence of the
  pattern is replaced, and in the replacement text \<open>$$\<close> stands for a dollar sign,
  \<open>$&\<close> for the matched text, \<open>$`\<close> for the text before the match and \<open>$'\<close> for the
  text after it. There are no groups, so every other \<open>$\<close> stands for itself.
\<close>

fun substitution :: "string \<Rightarrow> string \<Rightarrow> string \<Rightarrow> string \<Rightarrow> string" where
  "substitution matched front rear (c # d # cs) =
     (if c = CHR ''$'' \<and> d = CHR ''$'' then CHR ''$'' # substitution matched front rear cs
      else if c = CHR ''$'' \<and> d = CHR ''&'' then matched @ substitution matched front rear cs
      else if c = CHR ''$'' \<and> d = CHR 0x60 then front @ substitution matched front rear cs
      else if c = CHR ''$'' \<and> d = CHR 0x27 then rear @ substitution matched front rear cs
      else c # substitution matched front rear (d # cs))"
| "substitution matched front rear cs = cs"

fun find_sub :: "string \<Rightarrow> string \<Rightarrow> string \<Rightarrow> (string \<times> string) option" where
  "find_sub pat pre [] = (if pat = [] then Some (rev pre, []) else None)"
| "find_sub pat pre (c # cs) =
     (if take (length pat) (c # cs) = pat then Some (rev pre, drop (length pat) (c # cs))
      else find_sub pat (c # pre) cs)"

definition string_replace :: "string \<Rightarrow> string \<Rightarrow> string \<Rightarrow> string" where
  "string_replace s pat replacement =
     (case find_sub pat [] s of
        None \<Rightarrow> s
      | Some (front, rear) \<Rightarrow> front @ substitution pat front rear replacement @ rear)"

text \<open>
  The body of the \<open>while\<close> loop for one match \<open>m\<close>: the state is the working text
  \<open>result\<close> and the warnings written to the console so far. A read that throws is caught
  and leaves a warning.
\<close>

definition include_step ::
  "env \<Rightarrow> string \<Rightarrow> string list \<Rightarrow> string \<times> (string \<times> js_error) list
     \<Rightarrow> string \<times> (string \<times> js_error) list" where
  "include_step e currentFilePath m = (\<lambda>(result, warnings).
     (let includePath = trim (m ! 4);
          resolvedPath = path_resolve (cwd e) [dirname currentFilePath, includePath]
      in case readFileSyncSafe e resolvedPath of
           Inr includedContent \<Rightarrow> (string_replace result (concat m) includedContent, warnings)
         | Inl error \<Rightarrow> (result, warnings @ [(resolvedPath, error)])))"

text \<open>A match of the directive pattern is never empty, so the scan moves on.\<close>

lemma include_re_progress:
  assumes "exec_from include_re pre rest = Some (front, m, rear)"
  shows "length rear < length rest"
proof -
  from exec_from_split[OF assms] obtain skipped where
    s: "rest = skipped @ concat m @ rear" by blast
  from assms obtain pre' rest' where "bt include_re pre' rest' = Some m"
    by (induction rest arbitrary: pre) (auto split: option.splits)
  then obtain r where "m = ''<!--'' # r"
    unfolding include_re_def by (blast dest: bt_Lit_SomeD)
  then have "concat m \<noteq> []" by simp
  then show ?thesis using s by (metis append_is_Nil_conv length_append length_greater_0_conv
        add_diff_cancel_right' diff_less le_add2 less_le_trans not_less zero_less_diff
        add.commute length_0_conv less_add_same_cancel2 trans_less_add2)
qed

text \<open>
  The loop \<open>while ((match = includeRegex.exec(content)) !== null)\<close>: the expression has
  the \<open>g\<close> flag, so every call looks for the next match in the unchanged \<open>content\<close> from
  the end of the match before. \<open>pre\<close> is the scanned part of \<open>content\<close>, reversed,
  \<open>rest\<close> the part still to scan.
\<close>

function include_loop ::
  "env \<Rightarrow> string \<Rightarrow> string \<Rightarrow> string \<Rightarrow> string \<times> (string \<times> js_error) list
     \<Rightarrow> string \<times> (string \<times> js_error) list" where
  "include_loop e currentFilePath pre rest state =
     (case exec_from include_re pre rest of
        None \<Rightarrow> state
      | Some (front, m, rear) \<Rightarrow>
          include_loop e currentFilePath (rev (front @ concat m)) rear
            (include_step e currentFilePath m state))"
  by pat_completeness auto
termination
  by (relation "measure (\<lambda>(e, currentFilePath, pre, rest, state). length rest)")
     (auto dest: include_re_progress)

definition processIncludeDirectives ::
  "env \<Rightarrow> string \<Rightarrow> string \<Rightarrow> string \<times> (string \<times> js_error) list" where
  "processIncludeDirectives e content currentFilePath =
     include_loop e currentFilePath [] content (content, [])"

text \<open>The successive matches of the directive pattern in a text, and the file a match
  names.\<close>

function include_matches :: "string \<Rightarrow> string \<Rightarrow> string list list" where
  "include_matches pre rest =
     (case exec_from include_re pre rest of
        None \<Rightarrow> []
      | Some (front, m, rear) \<Rightarrow> m # include_matches (rev (front @ concat m)) rear)"
  by pat_completeness auto
termination
  by (relation "measure (\<lambda>(pre, rest). length rest)") (auto dest: include_re_progress)

definition include_target :: "env \<Rightarrow> string \<Rightarrow> string list \<Rightarrow> string" where
  "include_target e currentFilePath m =
     path_resolve (cwd e) [dirname currentFilePath, trim (m ! 4)]"

definition readable :: "env \<Rightarrow> string \<Rightarrow> bool" where
  "readable e path = (case files e path of Some (File source) \<Rightarrow> True | _ \<Rightarrow> False)"

text \<open>Example: a page with one directive; its directory with the snippet \<open>X\<close>, with a
  snippet that holds dollar signs, and without the snippet.\<close>

definition include_doc :: string where
  "include_doc = ''A'' @ [CHR 0x0A] @ ''<!-- INCLUDE snippet.md -->'' @ [CHR 0x0A] @ ''B''"

text \<open>A document without a preamble: the parser returns no keys and the whole text.\<close>

definition no_frontmatter :: FrontMatterData where
  "no_frontmatter = \<lparr>fm_title = None, fm_sidebar_label = None, fm_sidebar_position = None,
                      fm_other = []\<rparr>"

definition site :: "(string \<Rightarrow> fs_entry option) \<Rightarrow> env" where
  "site fs =
     \<lparr>cwd = ''/site'', files = fs, matter = (\<lambda>source. Inr (no_frontmatter, source)),
      changelogWarning = (\<lambda>locale. if locale = En then [] else ''> Changelog: English only.''),
      missingTranslation = (\<lambda>locale. ''This page is not yet translated. Showing English.'')\<rparr>"

definition snippet_env :: "string \<Rightarrow> env" where
  "snippet_env source =
     site (\<lambda>p. if p = ''/site/docs/snippet.md'' then Some (File source)
              else if p = ''/site/docs/page.md'' then Some (File include_doc)
              else None)"

definition no_snippet_env :: env where
  "no_snippet_env =
     site (\<lambda>p. if p = ''/site/docs/page.md'' then Some (File include_doc) else None)"

text \<open>Example: a directive whose path holds the text of the next directive; only
  \<open>a.md\<close> exists.\<close>

definition nested_doc :: string where
  "nested_doc = ''<!-- INCLUDE <!-- INCLUDE a.md -->|<!-- INCLUDE a.md -->''"

definition nested_env :: env where
  "nested_env =
     site (\<lambda>p. if p = ''/site/docs/a.md'' then Some (File ''X'')
              else if p = ''/site/docs/page.md'' then Some (File nested_doc)
              else None)"

section \<open>Link rewriting (remark-links.ts)\<close>



text \<open>\<open>/\.mdx?$/i\<close>, \<open>/\/index$/\<close> and \<open>/^\//\<close>\<close>

definition md_ext_re :: "atom list" where
  "md_ext_re = [Lit ''.'', Rep (\<lambda>c. c = CHR ''m'' \<or> c = CHR ''M'') 1 (Some 1) True,
                Rep (\<lambda>c. c = CHR ''d'' \<or> c = CHR ''D'') 1 (Some 1) True,
                Rep (\<lambda>c. c = CHR ''x'' \<or> c = CHR ''X'') 0 (Some 1) True, Eol]"









section \<open>Documents (docs.ts)\<close>

text \<open>\<open>DEFAULT_ORDER\<close> of \<open>lib/constants\<close>\<close>

definition DEFAULT_ORDER :: int where
  "DEFAULT_ORDER = 9999"

record DocMeta =
  meta_title :: string
  meta_slug :: "string list"
  meta_order :: int
  meta_isIndex :: bool

record DocData =
  doc_title :: string
  doc_slug :: "string list"
  doc_content :: string
  doc_data :: FrontMatterData
  doc_toc :: "TocItem list"
  doc_isIndex :: bool

definition docsRoot :: "env \<Rightarrow> Locale \<Rightarrow> string" where
  "docsRoot e locale = path_resolve (cwd e) [''taffy-layout'', localeDir locale]"

text \<open>\<open>extractTitle\<close>: \<open>/^#\s+(.+)$/m\<close>, group 1 is the text of atom 3. The result is absent
  when nothing matches.\<close>

definition title_re :: "atom list" where
  "title_re = [BolM, Lit ''#'', Rep is_space 1 None True, Rep is_dot 1 None True, EolM]"

definition extractTitle :: "string \<Rightarrow> string option" where
  "extractTitle content = map_option (\<lambda>(front, m, rear). trim (m ! 3)) (exec title_re content)"

subsection \<open>slugFromFile\<close>

text \<open>
  \<open>/\.(md|mdx)$/i\<close> matches what \<open>/\.mdx?$/i\<close> matches: the match ends at the end of the
  text, so at one start position at most one of the two alternatives fits.
\<close>

definition backslashes_to_slashes :: "string \<Rightarrow> string" where
  "backslashes_to_slashes s = map (\<lambda>c. if c = CHR 0x5C then CHR ''/'' else c) s"

text \<open>The function from the relative path on: everything after \<open>path.relative\<close>.\<close>

definition slug_of_relative :: "string \<Rightarrow> string list" where
  "slug_of_relative rel =
     (let withoutExt = replace_first md_ext_re [] rel;
          parts = filter (\<lambda>p. p \<noteq> []) (split (CHR ''/'') withoutExt)
      in if parts \<noteq> [] \<and> last parts = ''index'' then butlast parts else parts)"

definition slugFromFile :: "env \<Rightarrow> string \<Rightarrow> string \<Rightarrow> string list" where
  "slugFromFile e root filePath =
     slug_of_relative (backslashes_to_slashes (path_relative (cwd e) root filePath))"

text \<open>A path segment that is a name: not empty, not \<open>.\<close> or \<open>..\<close>, and free of both
  separators.\<close>

definition clean_segment :: "string \<Rightarrow> bool" where
  "clean_segment d =
     (d \<noteq> [] \<and> CHR ''/'' \<notin> set d \<and> CHR 0x5C \<notin> set d \<and> d \<noteq> ''.'' \<and> d \<noteq> ''..'')"

subsection \<open>titleFromSlug and docHref\<close>

text \<open>\<open>toUpperCase\<close> on a character of the class \<open>\w\<close>.\<close>

definition to_upper :: "char \<Rightarrow> char" where
  "to_upper c = (let n = (of_char c :: nat) in
     if 97 \<le> n \<and> n \<le> 122 then char_of (n - 32) else c)"

text \<open>\<open>.replace(/\b\w/g, (char) => char.toUpperCase())\<close>: a word character is replaced when
  no word character stands before it.\<close>

fun capitalize_words :: "bool \<Rightarrow> string \<Rightarrow> string" where
  "capitalize_words prev [] = []"
| "capitalize_words prev (c # cs) =
     (if is_word c \<and> \<not> prev then to_upper c else c) # capitalize_words (is_word c) cs"

definition titleFromSlug :: "string list \<Rightarrow> string" where
  "titleFromSlug slug_segments =
     (let fallback = (if slug_segments \<noteq> [] then last slug_segments else ''Home'')
      in capitalize_words False
           (map (\<lambda>c. if c = CHR ''-'' \<or> c = CHR ''_'' then CHR '' '' else c) fallback))"

definition docHref :: "Locale \<Rightarrow> string list \<Rightarrow> string" where
  "docHref locale slug_segments =
     (let base = localeBasePath locale @ ''/docs''
      in if slug_segments = [] then base else base @ ''/'' @ join ''/'' slug_segments)"

subsection \<open>resolveDocPath and getDoc\<close>

definition doc_candidates :: "env \<Rightarrow> Locale \<Rightarrow> string list \<Rightarrow> string list" where
  "doc_candidates e locale slug_segments =
     (let root = docsRoot e locale;
          slugPath = join ''/'' slug_segments;
          base = path_join [root, slugPath]
      in [path_join [base, ''index.md''], path_join [base, ''index.mdx''],
          base @ ''.md'', base @ ''.mdx''])"

definition resolveDocPath :: "env \<Rightarrow> Locale \<Rightarrow> string list \<Rightarrow> string option" where
  "resolveDocPath e locale slug_segments =
     find (existsSync e) (doc_candidates e locale slug_segments)"

definition getLocaleWarning :: "env \<Rightarrow> Locale \<Rightarrow> string option" where
  "getLocaleWarning e locale =
     (if locale = DEFAULT_LOCALE then None
      else if changelogWarning e locale \<noteq> [] then Some (changelogWarning e locale)
      else None)"

text \<open>A value of the chain \<open>a || b || \<dots>\<close> counts when it is a non-empty string.\<close>

definition truthy :: "string option \<Rightarrow> bool" where
  "truthy v = (case v of None \<Rightarrow> False | Some s \<Rightarrow> s \<noteq> [])"

definition title_of :: "FrontMatterData \<Rightarrow> string \<Rightarrow> string list \<Rightarrow> string" where
  "title_of data content slug_segments =
     (let titleRaw =
            (if truthy (fm_title data) then the (fm_title data)
             else if truthy (fm_sidebar_label data) then the (fm_sidebar_label data)
             else if truthy (extractTitle content) then the (extractTitle content)
             else titleFromSlug slug_segments)
      in unescapeTitle titleRaw)"

text \<open>The part of \<open>getDoc\<close> after the file is read.\<close>

definition doc_of ::
  "env \<Rightarrow> string list \<Rightarrow> bool \<Rightarrow> string \<Rightarrow> FrontMatterData \<Rightarrow> string \<Rightarrow> DocData" where
  "doc_of e slug_segments isChangelog filePath data content =
     (let isIndex = startsWith (toLowerCase (basename filePath)) ''index.'';
          title = title_of data content slug_segments;
          processedContent =
            (if isChangelog then content
             else fst (processIncludeDirectives e content filePath))
      in \<lparr>doc_title = title, doc_slug = slug_segments, doc_content = processedContent,
          doc_data = data, doc_toc = extractToc processedContent, doc_isIndex = isIndex\<rparr>)"

text \<open>\<open>getDoc\<close>: \<open>Inl\<close> is an exception that leaves the call, \<open>Inr None\<close> the result
  \<open>null\<close>.\<close>

definition getDoc :: "env \<Rightarrow> Locale \<Rightarrow> string list \<Rightarrow> js_error + DocData option" where
  "getDoc e locale slug_segments =
     (let isChangelog = (slug_segments = [''changelog''])
      in if isChangelog then
           (let filePath = path_resolve (cwd e) [''taffy-layout'', ''CHANGELOG.md'']
            in case readFileSyncSafe e filePath of
                 Inl error \<Rightarrow> Inl error
               | Inr source \<Rightarrow>
                   (let data = no_frontmatter\<lparr>fm_title := Some ''Changelog''\<rparr>;
                        content =
                          (if locale \<noteq> DEFAULT_LOCALE then
                             (case getLocaleWarning e locale of
                                Some warning \<Rightarrow>
                                  warning @ [CHR 0x0A, CHR 0x0A] @ ''---'' @ [CHR 0x0A, CHR 0x0A] @ source
                              | None \<Rightarrow> source)
                           else source)
                    in Inr (Some (doc_of e slug_segments True filePath data content))))
         else
           (case resolveDocPath e locale slug_segments of
              None \<Rightarrow> Inr None
            | Some filePath \<Rightarrow>
                (case readFileSyncSafe e filePath of
                   Inl error \<Rightarrow> Inl error
                 | Inr source \<Rightarrow>
                     (case matter e source of
                        Inl error \<Rightarrow> Inl error
                      | Inr (data, content) \<Rightarrow>
                          Inr (Some (doc_of e slug_segments False filePath data content))))))"

text \<open>Example: only the default locale has the document \<open>api/foo\<close>; only the default
  locale has the document \<open>intro\<close>.\<close>

definition api_foo_env :: env where
  "api_foo_env =
     site (\<lambda>p. if p = ''/site/taffy-layout/docs/api/foo.md'' then Some (File ''# Foo'')
              else None)"

definition intro_env :: env where
  "intro_env =
     site (\<lambda>p. if p = ''/site/taffy-layout/docs/intro.md'' then Some (File ''# Intro'')
              else None)"

section \<open>The sidebar (docs.ts: getSidebar)\<close>

text \<open>An absent \<open>href\<close>, \<open>children\<close> or \<open>segment\<close> is \<open>None\<close>. The field \<open>order\<close> is a
  number of the preamble; the model takes the integers.\<close>

datatype NavItem =
  NavItem (nav_title: string) (nav_href: "string option") (nav_order: int)
          (nav_children: "NavItem list option") (nav_segment: "string option")

definition children_of :: "NavItem \<Rightarrow> NavItem list" where
  "children_of item = (case nav_children item of None \<Rightarrow> [] | Some items \<Rightarrow> items)"

text \<open>The section node that the walk creates for a segment it does not find.\<close>

definition new_section :: "string \<Rightarrow> NavItem" where
  "new_section segment = NavItem (titleFromSlug [segment]) None DEFAULT_ORDER (Some []) (Some segment)"

text \<open>
  \<open>current.children.find(\<dots>)\<close>, the \<open>push\<close> of a new section when nothing is found, and
  what happens to the section afterwards (\<open>f\<close>): the nodes are shared objects in the
  source, so a change of the section is a change of the child in place.
\<close>

fun upsert :: "string \<Rightarrow> (NavItem \<Rightarrow> NavItem) \<Rightarrow> NavItem list \<Rightarrow> NavItem list" where
  "upsert segment f [] = [f (new_section segment)]"
| "upsert segment f (child # children) =
     (if nav_segment child = Some segment then f child # children
      else child # upsert segment f children)"

text \<open>The statements after the \<open>forEach\<close>: an index document claims the node \<open>current\<close>,
  any other document becomes a leaf below it.\<close>

definition attach :: "Locale \<Rightarrow> DocMeta \<Rightarrow> NavItem \<Rightarrow> NavItem" where
  "attach locale doc current =
     (case current of NavItem title href ord children segment \<Rightarrow>
        if meta_isIndex doc
        then NavItem (meta_title doc) (Some (docHref locale (meta_slug doc))) (meta_order doc)
               children segment
        else NavItem title href ord
               (Some (children_of current @
                  [NavItem (meta_title doc) (Some (docHref locale (meta_slug doc))) (meta_order doc)
                     None (if meta_slug doc = [] then None else Some (last (meta_slug doc)))]))
               segment)"

text \<open>
  \<open>doc.slug.forEach(\<dots>)\<close> from the node \<open>current\<close> over the segments still to walk, and
  then \<open>attach\<close>. The callback returns at the last segment of a document that is no index,
  and \<open>current\<close> stays where it is.
\<close>

fun insert_doc :: "Locale \<Rightarrow> DocMeta \<Rightarrow> string list \<Rightarrow> NavItem \<Rightarrow> NavItem" where
  "insert_doc locale doc [] current = attach locale doc current"
| "insert_doc locale doc (segment # rest) current =
     (case current of NavItem title href ord children seg \<Rightarrow>
        let current' = NavItem title href ord (Some (children_of current)) seg;
            isLeaf = (rest = [])
        in if isLeaf \<and> \<not> meta_isIndex doc then insert_doc locale doc rest current'
           else NavItem title href ord
                  (Some (upsert segment (insert_doc locale doc rest) (children_of current)))
                  seg)"

text \<open>One turn of the loop over the documents; the state is the root and the home
  node.\<close>

definition home_item :: "Locale \<Rightarrow> DocMeta \<Rightarrow> NavItem" where
  "home_item locale doc =
     NavItem (meta_title doc)
       (Some (if locale = DEFAULT_LOCALE then ''/'' else localeBasePath locale @ ''/''))
       (meta_order doc) None (Some [])"

definition sidebar_step ::
  "Locale \<Rightarrow> NavItem \<times> NavItem option \<Rightarrow> DocMeta \<Rightarrow> NavItem \<times> NavItem option" where
  "sidebar_step locale = (\<lambda>(root, home) doc.
     if meta_slug doc \<noteq> [] \<and> hd (meta_slug doc) = ''intro'' then (root, home)
     else if meta_slug doc = [] \<and> meta_isIndex doc then (root, Some (home_item locale doc))
     else (insert_doc locale doc (meta_slug doc) root, home))"

definition sidebar_state :: "Locale \<Rightarrow> DocMeta list \<Rightarrow> NavItem \<times> NavItem option" where
  "sidebar_state locale docs =
     foldl (sidebar_step locale) (NavItem ''root'' None 0 (Some []) None, None) docs"

subsection \<open>sortTree\<close>

text \<open>
  The comparison function of the sort. \<open>localeCompare\<close> is the collation of the runtime
  and a parameter of the model: \<open>lc a b\<close> is negative, zero or positive.
\<close>

definition compare_items :: "(string \<Rightarrow> string \<Rightarrow> int) \<Rightarrow> NavItem \<Rightarrow> NavItem \<Rightarrow> int" where
  "compare_items lc a b =
     (if nav_order a \<noteq> nav_order b then nav_order a - nav_order b
      else lc (nav_title a) (nav_title b))"

text \<open>\<open>Array.prototype.sort\<close> is stable; with a consistent comparison function it is
  insertion by the comparison, an element staying behind the elements it does not
  precede.\<close>

fun insert_by :: "('a \<Rightarrow> 'a \<Rightarrow> int) \<Rightarrow> 'a \<Rightarrow> 'a list \<Rightarrow> 'a list" where
  "insert_by cmp x [] = [x]"
| "insert_by cmp x (y # ys) = (if cmp y x \<le> 0 then y # insert_by cmp x ys else x # y # ys)"

definition sort_by :: "('a \<Rightarrow> 'a \<Rightarrow> int) \<Rightarrow> 'a list \<Rightarrow> 'a list" where
  "sort_by cmp xs = foldl (\<lambda>sorted x. insert_by cmp x sorted) [] xs"

lemma set_insert_by: "set (insert_by cmp x xs) = insert x (set xs)"
  by (induction xs) auto

lemma set_fold_insert_by:
  "set (foldl (\<lambda>sorted x. insert_by cmp x sorted) acc xs) = set acc \<union> set xs"
  by (induction xs arbitrary: acc) (auto simp: set_insert_by)

lemma set_sort_by: "set (sort_by cmp xs) = set xs"
  by (simp add: sort_by_def set_fold_insert_by)

text \<open>\<open>sortTree\<close> on the children of one node: the list is sorted, then the children of
  every item are.\<close>

function sort_item :: "(string \<Rightarrow> string \<Rightarrow> int) \<Rightarrow> NavItem \<Rightarrow> NavItem" where
  "sort_item lc (NavItem title href ord children segment) =
     NavItem title href ord
       (case children of
          None \<Rightarrow> None
        | Some items \<Rightarrow> Some (map (sort_item lc) (sort_by (compare_items lc) items)))
       segment"
  by pat_completeness auto
termination
proof (relation "measure (\<lambda>(lc, item). size item)")
  show "wf (measure (\<lambda>(lc, item). size item))" by simp
next
  fix lc :: "string \<Rightarrow> string \<Rightarrow> int" and title href ord children segment items
    and x :: NavItem
  assume "children = Some items" "x \<in> set (sort_by (compare_items lc) items)"
  then have "x \<in> set items" by (simp add: set_sort_by)
  then have "size x < Suc (size_list size items)"
    by (meson less_Suc_eq_le size_list_estimation' order_refl)
  then show "((lc, x), (lc, NavItem title href ord children segment)) \<in> measure (\<lambda>(lc, item). size item)"
    using \<open>children = Some items\<close> by simp
qed

definition sortTree :: "(string \<Rightarrow> string \<Rightarrow> int) \<Rightarrow> NavItem list option \<Rightarrow> NavItem list option" where
  "sortTree lc items =
     (case items of
        None \<Rightarrow> None
      | Some xs \<Rightarrow> Some (map (sort_item lc) (sort_by (compare_items lc) xs)))"

definition getSidebar :: "(string \<Rightarrow> string \<Rightarrow> int) \<Rightarrow> Locale \<Rightarrow> DocMeta list \<Rightarrow> NavItem list" where
  "getSidebar lc locale docs =
     (let (root, home) = sidebar_state locale docs;
          navItems = (case sortTree lc (nav_children root) of None \<Rightarrow> [] | Some xs \<Rightarrow> xs)
      in case home of Some h \<Rightarrow> h # navItems | None \<Rightarrow> navItems)"

subsection \<open>The properties of a sidebar\<close>

text \<open>A node may be emitted when it has a link or at least one child, and so for every
  node below it.\<close>

definition has_link_or_children :: "NavItem \<Rightarrow> bool" where
  "has_link_or_children item = (nav_href item \<noteq> None \<or> children_of item \<noteq> [])"

fun all_valid :: "NavItem \<Rightarrow> bool" where
  "all_valid (NavItem title href ord children segment) =
     ((href \<noteq> None \<or> (children \<noteq> None \<and> children \<noteq> Some [])) \<and>
      (case children of None \<Rightarrow> True | Some items \<Rightarrow> \<forall>child\<in>set items. all_valid child))"

text \<open>The nodes below a node may all be emitted.\<close>

definition below_valid :: "NavItem \<Rightarrow> bool" where
  "below_valid item = (\<forall>child\<in>set (children_of item). all_valid child)"

text \<open>
  \<open>precedes lc a b\<close>: \<open>a\<close> may stand before \<open>b\<close> in the order by \<open>(order, title)\<close>. A list is
  sorted when every element may stand before every later one; a level is sorted with
  all levels below it.
\<close>

definition precedes :: "(string \<Rightarrow> string \<Rightarrow> int) \<Rightarrow> NavItem \<Rightarrow> NavItem \<Rightarrow> bool" where
  "precedes lc a b =
     (nav_order a < nav_order b \<or> (nav_order a = nav_order b \<and> lc (nav_title a) (nav_title b) \<le> 0))"

fun levels_sorted :: "(string \<Rightarrow> string \<Rightarrow> int) \<Rightarrow> NavItem \<Rightarrow> bool" where
  "levels_sorted lc (NavItem title href ord children segment) =
     (case children of
        None \<Rightarrow> True
      | Some items \<Rightarrow>
          sorted_wrt (precedes lc) items \<and> (\<forall>child\<in>set items. levels_sorted lc child))"

definition sorted_levels :: "(string \<Rightarrow> string \<Rightarrow> int) \<Rightarrow> NavItem list \<Rightarrow> bool" where
  "sorted_levels lc items =
     (sorted_wrt (precedes lc) items \<and> (\<forall>item\<in>set items. levels_sorted lc item))"

text \<open>A collation is consistent when it compares any two titles one way or the other
  and does so transitively.\<close>

definition consistent :: "(string \<Rightarrow> string \<Rightarrow> int) \<Rightarrow> bool" where
  "consistent lc =
     ((\<forall>a b. lc a b \<le> 0 \<or> lc b a \<le> 0) \<and> (\<forall>a b c. lc a b \<le> 0 \<and> lc b c \<le> 0 \<longrightarrow> lc a c \<le> 0))"

text \<open>A collation for the examples: the order of the code units.\<close>

definition unit_compare :: "string \<Rightarrow> string \<Rightarrow> int" where
  "unit_compare a b = (if a < b then - 1 else if a = b then 0 else 1)"

text \<open>The documents of the specification's example, and a site with a home page of a
  large order, a section with an index, and a document two levels deep.\<close>

definition doc_meta :: "string \<Rightarrow> string list \<Rightarrow> int \<Rightarrow> bool \<Rightarrow> DocMeta" where
  "doc_meta title slug_segments ord isIndex =
     \<lparr>meta_title = title, meta_slug = slug_segments, meta_order = ord, meta_isIndex = isIndex\<rparr>"

definition four_docs :: "DocMeta list" where
  "four_docs = [doc_meta ''Zebra'' [''z''] 9999 False, doc_meta ''Banana'' [''b''] 2 False,
                doc_meta ''Apple'' [''a''] 2 False, doc_meta ''Intro'' [''i''] 1 False]"

definition site_docs :: "DocMeta list" where
  "site_docs = four_docs @
     [doc_meta ''Home'' [] 5000 True, doc_meta ''Guides'' [''guides''] 3 True,
      doc_meta ''Setup'' [''guides'', ''setup''] 2 False,
      doc_meta ''Deep'' [''x'', ''y'', ''z''] 1 False,
      doc_meta ''Skipped'' [''intro'', ''more''] 1 False]"

section \<open>The documentation pages\<close>

text \<open>
  What a page function does: \<open>notFound()\<close>, \<open>redirect(\<dots>)\<close>, an exception of \<open>getDoc\<close>
  that is not caught, or the rendered shell. \<open>render\<close> holds the properties passed to
  \<open>DocShell\<close> and the arguments of \<open>renderMdx\<close>, whose result is the shell's content.
\<close>

record render =
  shell_locale :: Locale
  shell_toc :: "TocItem list"
  shell_slug :: "string list"
  shell_notice :: "string option"
  mdx_source :: string
  mdx_basePath :: string
  mdx_slug :: "string list"
  mdx_isIndex :: bool
  mdx_useMarkdownOnly :: bool

datatype page_result = NotFound | Redirect string | Throws js_error | Render render

text \<open>\<open>isLocale\<close> on a route parameter. The routes are generated from \<open>LOCALE_KEYS\<close> and
  \<open>dynamicParams\<close> is off, so the parameter is one of the three keys or no locale.\<close>

definition parse_locale :: "string \<Rightarrow> Locale option" where
  "parse_locale v =
     (if v = ''en'' then Some En else if v = ''zh'' then Some Zh
      else if v = ''ja'' then Some Ja else None)"

definition resolved_slug :: "string list \<Rightarrow> string list" where
  "resolved_slug slug_param = (if slug_param \<noteq> [] then slug_param else [''intro''])"

text \<open>\<open>app/[locale]/docs/[[...slug]]/page.tsx\<close>. An absent \<open>slug\<close> parameter is the empty
  list. The two calls of \<open>getDoc\<close> run one after the other, the locale's first.\<close>

definition Page_locale :: "env \<Rightarrow> string \<Rightarrow> string list \<Rightarrow> page_result" where
  "Page_locale e locale_param slug_param =
     (case parse_locale locale_param of
        None \<Rightarrow> NotFound
      | Some locale \<Rightarrow>
          if locale = DEFAULT_LOCALE then NotFound
          else if slug_param = [''intro''] then Redirect (''/'' @ locale_key locale @ ''/docs'')
          else
            let resolvedSlug = resolved_slug slug_param;
                isApi = (hd resolvedSlug = ''api'')
            in case getDoc e locale resolvedSlug of
                 Inl error \<Rightarrow> Throws error
               | Inr primaryDoc \<Rightarrow>
                   (case getDoc e DEFAULT_LOCALE resolvedSlug of
                      Inl error \<Rightarrow> Throws error
                    | Inr fallbackDoc \<Rightarrow>
                        (case (if isApi then fallbackDoc
                               else if primaryDoc \<noteq> None then primaryDoc else fallbackDoc) of
                           None \<Rightarrow> NotFound
                         | Some doc \<Rightarrow>
                             Render
                               \<lparr>shell_locale = locale,
                                shell_toc = doc_toc doc,
                                shell_slug = resolvedSlug,
                                shell_notice =
                                  (if isApi \<or> (primaryDoc = None \<and> fallbackDoc \<noteq> None)
                                   then Some (missingTranslation e locale) else None),
                                mdx_source = doc_content doc,
                                mdx_basePath = ''/'' @ locale_key locale @ ''/docs'',
                                mdx_slug = resolvedSlug,
                                mdx_isIndex = doc_isIndex doc,
                                mdx_useMarkdownOnly = isApi\<rparr>)))"

text \<open>\<open>app/docs/[[...slug]]/page.tsx\<close>, the page of the default locale.\<close>

definition Page_default :: "env \<Rightarrow> string list \<Rightarrow> page_result" where
  "Page_default e slug_param =
     (if slug_param = [''intro''] then Redirect ''/docs''
      else
        let resolvedSlug = resolved_slug slug_param;
            isApi = (hd resolvedSlug = ''api'')
        in case getDoc e DEFAULT_LOCALE resolvedSlug of
             Inl error \<Rightarrow> Throws error
           | Inr None \<Rightarrow> NotFound
           | Inr (Some doc) \<Rightarrow>
               Render
                 \<lparr>shell_locale = DEFAULT_LOCALE,
                  shell_toc = doc_toc doc,
                  shell_slug = resolvedSlug,
                  shell_notice = None,
                  mdx_source = doc_content doc,
                  mdx_basePath = ''/docs'',
                  mdx_slug = resolvedSlug,
                  mdx_isIndex = doc_isIndex doc,
                  mdx_useMarkdownOnly = isApi\<rparr>)"

text \<open>The documents of the two example sites.\<close>

definition api_foo_doc :: DocData where
  "api_foo_doc = \<lparr>doc_title = ''Foo'', doc_slug = [''api'', ''foo''], doc_content = ''# Foo'',
                   doc_data = no_frontmatter, doc_toc = [], doc_isIndex = False\<rparr>"

definition intro_doc :: DocData where
  "intro_doc = \<lparr>doc_title = ''Intro'', doc_slug = [''intro''], doc_content = ''# Intro'',
                 doc_data = no_frontmatter, doc_toc = [], doc_isIndex = False\<rparr>"


section \<open>Proofs: the heading pattern\<close>

lemma exec_from_Bol: "pre \<noteq> [] \<Longrightarrow> exec_from (Bol # as) pre rest = None"
  by (induction rest arbitrary: pre) auto

lemma exec_Bol:
  "exec (Bol # as) s = map_option (\<lambda>segs. ([], segs, drop (length (concat segs)) s)) (bt (Bol # as) [] s)"
  by (cases s) (auto simp: exec_def exec_from_Bol split: option.splits)

lemma length_takeWhile_le_nth:
  assumes "k < length xs" "\<not> P (xs ! k)"
  shows "length (takeWhile P xs) \<le> k"
proof (rule ccontr)
  assume "\<not> length (takeWhile P xs) \<le> k"
  then have k: "k < length (takeWhile P xs)" by simp
  then have "takeWhile P xs ! k = xs ! k" by (rule takeWhile_nth)
  moreover have "P (takeWhile P xs ! k)" using k by (meson nth_mem set_takeWhileD)
  ultimately show False using assms by simp
qed

lemma is_space_not_hash: "is_space c \<Longrightarrow> \<not> is_hash c"
  by (auto simp: is_space_def is_hash_def)

lemma heading_match_level:
  assumes "heading_match line = Some m"
  shows "hash_run line = heading_level m \<and> (heading_level m = 2 \<or> heading_level m = 3)"
proof -
  from assms obtain r1 where m: "m = [] # r1"
    and r1: "bt [Rep is_hash 2 (Some 3) True, Rep is_space 1 None True,
                 Rep is_dot 1 None True, Eol] [] line = Some r1"
    by (auto simp: heading_match_def heading_re_def exec_Bol)
  from bt_Rep_SomeD[OF r1] obtain k r2 where r1': "r1 = take k line # r2"
    and k: "2 \<le> k" "k \<le> length (takeWhile is_hash line)" "k \<le> 3"
    and r2: "bt [Rep is_space 1 None True, Rep is_dot 1 None True, Eol]
               (rev (take k line) @ []) (drop k line) = Some r2"
    by auto
  from bt_Rep_SomeD[OF r2] obtain j where j: "1 \<le> j" "j \<le> length (takeWhile is_space (drop k line))"
    by auto
  then have ne: "drop k line \<noteq> []" by auto
  then have kl: "k < length line" by simp
  have "is_space (hd (drop k line))"
    using j by (cases "drop k line") (auto split: if_splits)
  then have "is_space (line ! k)" using kl by (simp add: hd_drop_conv_nth)
  then have nh: "\<not> is_hash (line ! k)" by (rule is_space_not_hash)
  from length_takeWhile_le_nth[of k line is_hash, OF kl nh] k have "hash_run line = k" by (simp add: hash_run_def)
  moreover have "heading_level m = k" using m r1' kl by (simp add: heading_level_def)
  ultimately show ?thesis using k by auto
qed

section \<open>Proofs: the slugger\<close>

lemma occ_set_same: "map_of occ s = Some n \<Longrightarrow> occ_set s n occ = occ"
  by (induction occ) (auto split: if_splits)

lemma occ_set_twice: "occ_set s m (occ_set s n occ) = occ_set s m occ"
  by (induction occ) auto

lemma suffixed_inj: "suffixed s j = suffixed s k \<Longrightarrow> j = k"
  by (simp add: suffixed_def decimal_inj)

lemma suffixed_neq: "suffixed s k \<noteq> s"
  by (simp add: suffixed_def)

lemma slug_loop_suffixed:
  "\<lbrakk>map_of occ s = Some n; r = suffixed s n; \<forall>j. 1 \<le> j \<and> j < n \<longrightarrow> has_own occ (suffixed s j)\<rbrakk>
   \<Longrightarrow> \<exists>m\<ge>n. slug_loop occ s r = (occ_set s m occ, suffixed s m) \<and>
              \<not> has_own occ (suffixed s m) \<and>
              (\<forall>j. 1 \<le> j \<and> j < m \<longrightarrow> has_own occ (suffixed s j))"
proof (induction occ s r arbitrary: n rule: slug_loop.induct)
  case (1 occ s r)
  show ?case
  proof (cases "has_own occ r")
    case False
    then have "slug_loop occ s r = (occ_set s n occ, suffixed s n)"
      using "1.prems" by (simp add: occ_set_same)
    then show ?thesis using False "1.prems" by auto
  next
    case True
    let ?occ' = "occ_set s (n + 1) occ"
    have own: "has_own occ s" using "1.prems"(1) by (simp add: has_own_map_of)
    have same: "has_own ?occ' x = has_own occ x" for x
      using own by (auto simp: has_own_occ_set)
    have step: "slug_loop occ s r = slug_loop ?occ' s (suffixed s (n + 1))"
      using True "1.prems"(1) by (simp add: suffixed_def)
    have "\<forall>j. 1 \<le> j \<and> j < n + 1 \<longrightarrow> has_own ?occ' (suffixed s j)"
    proof (intro allI impI)
      fix j assume j: "1 \<le> j \<and> j < n + 1"
      show "has_own ?occ' (suffixed s j)"
      proof (cases "j = n")
        case True
        then show ?thesis using \<open>has_own occ r\<close> "1.prems"(2) same by simp
      next
        case False
        then show ?thesis using j "1.prems"(3) same by simp
      qed
    qed
    from "1.IH"[OF True "1.prems"(1) map_of_occ_set _ this, unfolded suffixed_def[symmetric]]
    obtain m where m: "m \<ge> n + 1"
      "slug_loop ?occ' s (suffixed s (n + 1)) = (occ_set s m ?occ', suffixed s m)"
      "\<not> has_own ?occ' (suffixed s m)"
      "\<forall>j. 1 \<le> j \<and> j < m \<longrightarrow> has_own ?occ' (suffixed s j)"
      by (auto simp: suffixed_def)
    then show ?thesis using step same by (auto simp: occ_set_twice intro!: exI[of _ m])
  qed
qed

lemma slug_cases:
  assumes inv: "slugger_inv occ"
  shows "(\<not> has_own occ (github_slug t) \<and>
            slug occ t = (github_slug t, occ_set (github_slug t) 0 occ)) \<or>
         (has_own occ (github_slug t) \<and>
            (\<exists>m\<ge>1. slug occ t = (suffixed (github_slug t) m,
                                   occ_set (suffixed (github_slug t) m) 0 (occ_set (github_slug t) m occ)) \<and>
                    \<not> has_own occ (suffixed (github_slug t) m) \<and>
                    (\<forall>j. 1 \<le> j \<and> j < m \<longrightarrow> has_own occ (suffixed (github_slug t) j))))"
proof (cases "has_own occ (github_slug t)")
  case False
  then show ?thesis by (simp add: slug_def Let_def)
next
  case True
  let ?s = "github_slug t"
  from True obtain n where n: "map_of occ ?s = Some n" by (auto simp: has_own_map_of)
  let ?occ' = "occ_set ?s (n + 1) occ"
  have same: "has_own ?occ' x = has_own occ x" for x
    using True by (auto simp: has_own_occ_set)
  have step: "slug_loop occ ?s ?s = slug_loop ?occ' ?s (suffixed ?s (n + 1))"
    using True n by (simp add: suffixed_def)
  have "\<forall>j. 1 \<le> j \<and> j < n + 1 \<longrightarrow> has_own ?occ' (suffixed ?s j)"
    using inv n same unfolding slugger_inv_def by (metis Suc_eq_plus1 less_Suc_eq_le)
  from slug_loop_suffixed[OF map_of_occ_set refl this]
  obtain m where m: "m \<ge> n + 1"
      "slug_loop ?occ' ?s (suffixed ?s (n + 1)) = (occ_set ?s m ?occ', suffixed ?s m)"
      "\<not> has_own ?occ' (suffixed ?s m)"
      "\<forall>j. 1 \<le> j \<and> j < m \<longrightarrow> has_own ?occ' (suffixed ?s j)"
    by auto
  have "slug occ t = (suffixed ?s m, occ_set (suffixed ?s m) 0 (occ_set ?s m occ))"
    using step m(2) by (simp add: slug_def Let_def occ_set_twice)
  moreover have "m \<ge> 1" using m(1) by simp
  ultimately show ?thesis using True m(3,4) same by blast
qed

lemma map_of_occ_set_if:
  "map_of (occ_set k v occ) x = (if x = k then Some v else map_of occ x)"
  by (simp add: map_of_occ_set map_of_occ_set_other)

lemma slug_keys:
  assumes "slugger_inv occ"
  shows "\<not> has_own occ (fst (slug occ t)) \<and>
         set (map fst (snd (slug occ t))) = insert (fst (slug occ t)) (set (map fst occ))"
proof -
  have k: "fst ` set (occ_set k v o') = insert k (fst ` set o')" for k v o'
  proof -
    have "set (map fst (occ_set k v o')) = insert k (set (map fst o'))"
      by (simp only: keys_occ_set) auto
    then show ?thesis by simp
  qed
  from slug_cases[OF assms, of t] show ?thesis
  proof (elim disjE conjE exE)
    assume "\<not> has_own occ (github_slug t)"
      "slug occ t = (github_slug t, occ_set (github_slug t) 0 occ)"
    then show ?thesis by (simp add: k)
  next
    fix m assume "has_own occ (github_slug t)"
      "slug occ t = (suffixed (github_slug t) m,
         occ_set (suffixed (github_slug t) m) 0 (occ_set (github_slug t) m occ))"
      "\<not> has_own occ (suffixed (github_slug t) m)"
    then show ?thesis by (simp add: k has_own_def insert_absorb)
  qed
qed

lemma slug_inv:
  assumes inv: "slugger_inv occ"
  shows "slugger_inv (snd (slug occ t))"
proof -
  let ?s = "github_slug t"
  from slug_cases[OF inv, of t] show ?thesis
  proof (elim disjE conjE exE)
    assume f: "\<not> has_own occ ?s" and e: "slug occ t = (?s, occ_set ?s 0 occ)"
    show ?thesis
      unfolding e snd_conv slugger_inv_def
      using inv by (auto simp: slugger_inv_def map_of_occ_set_if has_own_occ_set split: if_splits)
  next
    fix m assume own: "has_own occ ?s" and m1: "1 \<le> m"
      and e: "slug occ t = (suffixed ?s m, occ_set (suffixed ?s m) 0 (occ_set ?s m occ))"
      and free: "\<not> has_own occ (suffixed ?s m)"
      and below: "\<forall>j. 1 \<le> j \<and> j < m \<longrightarrow> has_own occ (suffixed ?s j)"
    show ?thesis
      unfolding e snd_conv slugger_inv_def
    proof (intro allI impI, elim conjE)
      fix s n j
      assume look: "map_of (occ_set (suffixed ?s m) 0 (occ_set ?s m occ)) s = Some n"
        and j: "1 \<le> j" "j \<le> n"
      have sne: "s \<noteq> suffixed ?s m" using look j by (auto simp: map_of_occ_set_if)
      show "has_own (occ_set (suffixed ?s m) 0 (occ_set ?s m occ)) (suffixed s j)"
      proof (cases "s = ?s")
        case True
        then have "n = m" using look sne by (simp add: map_of_occ_set_if)
        then show ?thesis using True j below by (cases "j = m") (auto simp: has_own_occ_set)
      next
        case False
        then have "map_of occ s = Some n" using look sne by (simp add: map_of_occ_set_if)
        then have "has_own occ (suffixed s j)" using inv j unfolding slugger_inv_def by blast
        then show ?thesis by (simp add: has_own_occ_set)
      qed
    qed
  qed
qed

lemma find_first_index:
  assumes "i < length xs" "P (xs ! i)" "\<forall>j<i. \<not> P (xs ! j)"
  shows "find P xs = Some (xs ! i)"
  using assms by (auto simp: find_Some_iff)

lemma first_free_suffixed:
  assumes s: "s \<in> set used" and m1: "1 \<le> m"
    and below: "\<forall>j. 1 \<le> j \<and> j < m \<longrightarrow> suffixed s j \<in> set used"
    and free: "suffixed s m \<notin> set used"
  shows "first_free used s = suffixed s m"
proof -
  let ?f = "\<lambda>k. if k = 0 then s else suffixed s k"
  have "inj_on ?f {0..<m}"
    by (auto simp: inj_on_def suffixed_neq suffixed_neq[symmetric] dest: suffixed_inj)
  moreover have "?f ` {0..<m} \<subseteq> set used"
    using s below by (auto simp: Suc_le_eq)
  ultimately have "card {0..<m} \<le> card (set used)"
    by (metis card_image card_mono finite_set)
  then have "m \<le> length used" using card_length[of used] by simp
  let ?xs = "map (suffixed s) [1..<length used + 2]"
  have len: "m - 1 < length ?xs" using \<open>m \<le> length used\<close> by (simp; arith)
  have nth: "?xs ! j = suffixed s (j + 1)" if "j < length ?xs" for j
    using that by (simp add: nth_map_upt del: upt_Suc)
  have "find (\<lambda>c. c \<notin> set used) ?xs = Some (?xs ! (m - 1))"
  proof (rule find_first_index[OF len])
    show "?xs ! (m - 1) \<notin> set used" using nth[OF len] m1 free by simp
    show "\<forall>j<m - 1. \<not> ?xs ! j \<notin> set used"
      using nth len below by auto
  qed
  then show ?thesis using s nth[OF len] m1 by (simp add: first_free_def suffixed_def[abs_def])
qed

lemma slug_first_free:
  assumes inv: "slugger_inv occ" and used: "set used = set (map fst occ)"
  shows "fst (slug occ t) = first_free used (github_slug t)"
proof -
  let ?s = "github_slug t"
  from slug_cases[OF inv, of t] show ?thesis
  proof (elim disjE conjE exE)
    assume "\<not> has_own occ ?s" "slug occ t = (?s, occ_set ?s 0 occ)"
    then show ?thesis using used by (simp add: first_free_def has_own_def)
  next
    fix m assume own: "has_own occ ?s" and m1: "1 \<le> m"
      and e: "slug occ t = (suffixed ?s m, occ_set (suffixed ?s m) 0 (occ_set ?s m occ))"
      and free: "\<not> has_own occ (suffixed ?s m)"
      and below: "\<forall>j. 1 \<le> j \<and> j < m \<longrightarrow> has_own occ (suffixed ?s j)"
    have "first_free used ?s = suffixed ?s m"
      using own m1 below free used by (intro first_free_suffixed) (auto simp: has_own_def)
    then show ?thesis using e by simp
  qed
qed

section \<open>Proofs: extractToc\<close>

lemma toc_item_fields:
  "toc_item occ m = (\<lparr>toc_id = fst (slug occ (heading_text m)), toc_text = heading_text m,
                      toc_level = heading_level m\<rparr>, snd (slug occ (heading_text m)))"
  by (simp add: toc_item_def Let_def split: prod.splits)

lemma toc_loop_fields:
  "map (\<lambda>i. (toc_level i, toc_text i)) (toc_loop occ lines) =
   map (\<lambda>m. (heading_level m, heading_text m)) (List.map_filter heading_match lines)"
  by (induction lines arbitrary: occ)
     (auto simp: List.map_filter_simps toc_item_fields split: option.splits)

lemma toc_loop_ids:
  "slugger_inv occ \<Longrightarrow> set used = set (map fst occ) \<Longrightarrow>
   map toc_id (toc_loop occ lines) = spec_ids used (map toc_text (toc_loop occ lines))"
proof (induction lines arbitrary: occ used)
  case Nil
  then show ?case by simp
next
  case (Cons line lines)
  show ?case
  proof (cases "heading_match line")
    case None
    then show ?thesis using Cons by simp
  next
    case (Some m)
    let ?t = "heading_text m"
    let ?occ' = "snd (slug occ ?t)"
    have ff: "fst (slug occ ?t) = first_free used (github_slug ?t)"
      using Cons.prems by (rule slug_first_free)
    have "set (first_free used (github_slug ?t) # used) = set (map fst ?occ')"
      using slug_keys[OF Cons.prems(1), of ?t] ff Cons.prems(2) by simp
    from Cons.IH[OF slug_inv[OF Cons.prems(1)] this]
    show ?thesis using Some ff by (simp add: toc_item_fields Let_def)
  qed
qed

lemma toc_loop_distinct:
  "slugger_inv occ \<Longrightarrow>
   distinct (map toc_id (toc_loop occ lines)) \<and>
   set (map toc_id (toc_loop occ lines)) \<inter> set (map fst occ) = {}"
proof (induction lines arbitrary: occ)
  case Nil
  then show ?case by simp
next
  case (Cons line lines)
  show ?case
  proof (cases "heading_match line")
    case None
    then show ?thesis using Cons by simp
  next
    case (Some m)
    let ?t = "heading_text m"
    let ?occ' = "snd (slug occ ?t)"
    from Cons.IH[OF slug_inv[OF Cons.prems(1)], of ?t]
    have ih: "distinct (map toc_id (toc_loop ?occ' lines))"
      "set (map toc_id (toc_loop ?occ' lines)) \<inter> set (map fst ?occ') = {}" by simp_all
    from slug_keys[OF Cons.prems(1), of ?t]
    have k: "fst (slug occ ?t) \<notin> set (map fst occ)"
      "set (map fst ?occ') = insert (fst (slug occ ?t)) (set (map fst occ))"
      by (simp_all add: has_own_def)
    show ?thesis using Some ih k by (auto simp: toc_item_fields)
  qed
qed

lemma toc_loop_filter:
  "toc_loop occ (filter (\<lambda>line. hash_run line = 2 \<or> hash_run line = 3) lines) = toc_loop occ lines"
proof (induction lines arbitrary: occ)
  case Nil
  then show ?case by simp
next
  case (Cons line lines)
  show ?case
  proof (cases "heading_match line")
    case None
    then show ?thesis using Cons by simp
  next
    case (Some m)
    then have "hash_run line = 2 \<or> hash_run line = 3"
      using heading_match_level by metis
    then show ?thesis using Some Cons by (simp split: prod.splits)
  qed
qed

lemma toc_loop_levels:
  "item \<in> set (toc_loop occ lines) \<Longrightarrow> toc_level item = 2 \<or> toc_level item = 3"
proof (induction lines arbitrary: occ)
  case Nil
  then show ?case by simp
next
  case (Cons line lines)
  show ?case
  proof (cases "heading_match line")
    case None
    then show ?thesis using Cons by simp
  next
    case (Some m)
    then have "heading_level m = 2 \<or> heading_level m = 3"
      using heading_match_level by metis
    then show ?thesis using Some Cons by (auto simp: toc_item_fields)
  qed
qed

lemma toc_loop_member:
  "line \<in> set lines \<Longrightarrow> heading_match line = Some m \<Longrightarrow>
   \<exists>item\<in>set (toc_loop occ lines). toc_text item = heading_text m \<and> toc_level item = heading_level m"
proof (induction lines arbitrary: occ)
  case Nil
  then show ?case by simp
next
  case (Cons l lines)
  show ?case
  proof (cases "l = line")
    case True
    then show ?thesis using Cons.prems by (simp add: toc_item_fields)
  next
    case False
    then have "line \<in> set lines" using Cons.prems by simp
    from Cons.IH[OF this Cons.prems(2)] show ?thesis
      by (cases "heading_match l") (auto simp: toc_item_fields)
  qed
qed

lemma slugger_inv_empty: "slugger_inv []"
  by (simp add: slugger_inv_def)

lemma two_setup_ids: "map toc_id (extractToc two_setup_doc) = [''setup'', ''setup-1'']"
  by code_simp

text \<open>
  Claim C7. For every document body, \<open>extractToc\<close> returns one item per line that matches
  the level-2 or level-3 heading pattern, in source order, with the level and the text of
  that line. The ids are those of a fresh slugger: the plain slug, or on collision the
  first free one of the slug suffixed with -1, -2, \<dots>; they are pairwise different.
  Lines that start with one \<open>#\<close> or with four or more contribute nothing: deleting every
  line that does not start with exactly two or three \<open>#\<close> leaves the result unchanged,
  and every item has level 2 or 3. A document with two headings \<open>## Setup\<close> gets the ids
  \<open>setup\<close> and \<open>setup-1\<close>.
\<close>

theorem extractToc_items:
  "map (\<lambda>i. (toc_level i, toc_text i)) (extractToc body) =
     map (\<lambda>m. (heading_level m, heading_text m)) (List.map_filter heading_match (split_lines body))
   \<and> map toc_id (extractToc body) = spec_ids [] (map toc_text (extractToc body))
   \<and> distinct (map toc_id (extractToc body))
   \<and> extractToc body =
       toc_loop [] (filter (\<lambda>line. hash_run line = 2 \<or> hash_run line = 3) (split_lines body))
   \<and> (\<forall>item\<in>set (extractToc body). toc_level item = 2 \<or> toc_level item = 3)
   \<and> map toc_id (extractToc two_setup_doc) = [''setup'', ''setup-1'']"
  unfolding extractToc_def
  using toc_loop_fields[of "[]" "split_lines body"]
    toc_loop_ids[OF slugger_inv_empty, of "[]" "split_lines body"]
    toc_loop_distinct[OF slugger_inv_empty, of "split_lines body"]
    toc_loop_filter[of "[]" "split_lines body"]
    toc_loop_levels[of _ "[]" "split_lines body"]
    two_setup_ids[unfolded extractToc_def]
  by (intro conjI ballI) simp_all

text \<open>The statement at a document with headings of the levels 1, 2, 4 and 3.\<close>

theorem extractToc_items_witness:
  "extractToc mixed_levels_doc =
     [\<lparr>toc_id = ''setup'', toc_text = ''Setup'', toc_level = 2\<rparr>,
      \<lparr>toc_id = ''setup-1'', toc_text = ''Setup'', toc_level = 3\<rparr>]
   \<and> map toc_id (extractToc mixed_levels_doc) = spec_ids [] (map toc_text (extractToc mixed_levels_doc))
   \<and> extractToc mixed_levels_doc =
       toc_loop [] (filter (\<lambda>line. hash_run line = 2 \<or> hash_run line = 3)
         (split_lines mixed_levels_doc))"
proof -
  have "extractToc mixed_levels_doc =
     [\<lparr>toc_id = ''setup'', toc_text = ''Setup'', toc_level = 2\<rparr>,
      \<lparr>toc_id = ''setup-1'', toc_text = ''Setup'', toc_level = 3\<rparr>]"
    by code_simp
  then show ?thesis using extractToc_items[of mixed_levels_doc] by blast
qed

text \<open>
  Claim C10. \<open>extractToc\<close> keeps no code-fence state: every line of the body that matches
  the heading pattern yields an item with its text and level, wherever the line stands.
  A body whose only heading line \<open>## Example\<close> stands between two fence lines yields the
  item with the text \<open>Example\<close>.
\<close>

theorem extractToc_no_fence_state:
  "(\<forall>line\<in>set (split_lines body). \<forall>m. heading_match line = Some m \<longrightarrow>
      (\<exists>item\<in>set (extractToc body).
         toc_text item = heading_text m \<and> toc_level item = heading_level m))
   \<and> extractToc fenced_doc = [\<lparr>toc_id = ''example'', toc_text = ''Example'', toc_level = 2\<rparr>]"
proof -
  have "extractToc fenced_doc = [\<lparr>toc_id = ''example'', toc_text = ''Example'', toc_level = 2\<rparr>]"
    by code_simp
  then show ?thesis
    unfolding extractToc_def using toc_loop_member by blast
qed

text \<open>The statement at the fenced document and its heading line.\<close>

theorem extractToc_no_fence_state_witness:
  "''## Example'' \<in> set (split_lines fenced_doc)
   \<and> heading_match ''## Example'' = Some [[], ''##'', '' '', ''Example'', []]
   \<and> (\<exists>item\<in>set (extractToc fenced_doc). toc_text item = ''Example'' \<and> toc_level item = 2)"
proof -
  have l: "''## Example'' \<in> set (split_lines fenced_doc)" by code_simp
  have m: "heading_match ''## Example'' = Some [[], ''##'', '' '', ''Example'', []]" by code_simp
  have t: "heading_text [[], ''##'', '' '', ''Example'', []] = ''Example''" by code_simp
  have v: "heading_level [[], ''##'', '' '', ''Example'', []] = 2" by code_simp
  from extractToc_no_fence_state[of fenced_doc] l m
  have "\<exists>item\<in>set (extractToc fenced_doc).
         toc_text item = heading_text [[], ''##'', '' '', ''Example'', []] \<and>
         toc_level item = heading_level [[], ''##'', '' '', ''Example'', []]" by blast
  then show ?thesis using l m t v by simp
qed

section \<open>Proofs: include directives\<close>

declare include_loop.simps [simp del] include_matches.simps [simp del]

lemma include_loop_fold:
  "include_loop e fp pre rest state =
   foldl (\<lambda>st m. include_step e fp m st) state (include_matches pre rest)"
proof (induction e fp pre rest state rule: include_loop.induct)
  case (1 e fp pre rest state)
  show ?case
  proof (cases "exec_from include_re pre rest")
    case None
    then show ?thesis
      by (subst include_loop.simps, subst include_matches.simps) simp
  next
    case (Some r)
    obtain front m rear where r: "r = (front, m, rear)" by (cases r) auto
    from "1.IH"[OF Some[unfolded r] refl refl] Some r show ?thesis
      by (subst include_loop.simps, subst include_matches.simps) simp
  qed
qed

lemma readable_iff: "readable e p \<longleftrightarrow> (\<exists>source. readFileSyncSafe e p = Inr source)"
  by (auto simp: readable_def readFileSyncSafe_def split: option.splits fs_entry.splits)

lemma unreadable_iff: "\<not> readable e p \<longleftrightarrow> (\<exists>err. readFileSyncSafe e p = Inl err)"
  by (auto simp: readable_def readFileSyncSafe_def split: option.splits fs_entry.splits)

lemma include_step_unreadable:
  assumes "\<not> readable e (include_target e fp m)"
  shows "\<exists>err. include_step e fp m (result, warnings) =
           (result, warnings @ [(include_target e fp m, err)])"
proof -
  from assms obtain err where "readFileSyncSafe e (include_target e fp m) = Inl err"
    by (auto simp: unreadable_iff)
  then show ?thesis by (auto simp: include_step_def include_target_def Let_def)
qed

lemma include_step_fst:
  "fst (include_step e fp m (result, w)) = fst (include_step e fp m (result, w'))"
  by (auto simp: include_step_def Let_def split: sum.splits)

lemma include_fold_fst:
  "fst (foldl (\<lambda>st m. include_step e fp m st) (result, w) ms) =
   fst (foldl (\<lambda>st m. include_step e fp m st) (result, w') ms)"
proof (induction ms arbitrary: result w w')
  case Nil
  then show ?case by simp
next
  case (Cons m ms)
  obtain r1 w1 where a: "include_step e fp m (result, w) = (r1, w1)" by (cases "include_step e fp m (result, w)")
  obtain r2 w2 where b: "include_step e fp m (result, w') = (r2, w2)" by (cases "include_step e fp m (result, w')")
  from include_step_fst[of e fp m result w w'] a b have "r1 = r2" by simp
  then show ?case using a b Cons.IH[of r1 w1 w2] by simp
qed

lemma include_fold_filter:
  "fst (foldl (\<lambda>st m. include_step e fp m st) (result, w) ms) =
   fst (foldl (\<lambda>st m. include_step e fp m st) (result, w)
          (filter (\<lambda>m. readable e (include_target e fp m)) ms))"
proof (induction ms arbitrary: result w)
  case Nil
  then show ?case by simp
next
  case (Cons m ms)
  show ?case
  proof (cases "readable e (include_target e fp m)")
    case True
    obtain r1 w1 where a: "include_step e fp m (result, w) = (r1, w1)"
      by (cases "include_step e fp m (result, w)")
    then show ?thesis using True Cons.IH[of r1 w1] by simp
  next
    case False
    from include_step_unreadable[OF False, of result w] obtain err where
      "include_step e fp m (result, w) = (result, w @ [(include_target e fp m, err)])" by blast
    then show ?thesis
      using False Cons.IH[of result w] include_fold_fst[of e fp result _ ms w] by simp
  qed
qed

lemma include_fold_all_unreadable:
  "\<forall>m\<in>set ms. \<not> readable e (include_target e fp m) \<Longrightarrow>
   fst (foldl (\<lambda>st m. include_step e fp m st) (result, w) ms) = result \<and>
   map fst (snd (foldl (\<lambda>st m. include_step e fp m st) (result, w) ms)) =
     map fst w @ map (include_target e fp) ms"
proof (induction ms arbitrary: w)
  case Nil
  then show ?case by simp
next
  case (Cons m ms)
  then have "\<not> readable e (include_target e fp m)" by simp
  from include_step_unreadable[OF this, of result w] obtain err where
    "include_step e fp m (result, w) = (result, w @ [(include_target e fp m, err)])" by blast
  then show ?case using Cons.IH[of "w @ [(include_target e fp m, err)]"] Cons.prems by simp
qed

lemma missing_example:
  "processIncludeDirectives no_snippet_env include_doc ''/site/docs/page.md'' =
     (include_doc, [(''/site/docs/snippet.md'', ENOENT ''/site/docs/snippet.md'')])"
  by code_simp

text \<open>
  What the loop does with a directive whose file cannot be read: the read's exception
  is caught, the working text stays as it is and one warning is written. The result is
  the fold of the loop body over the directives of the content; when no directive's file
  can be read it is the content itself.
\<close>

lemma include_unreadable_step:
  "(\<forall>m\<in>set (include_matches [] content).
       \<not> readable e (include_target e fp m) \<longrightarrow>
       (\<forall>result warnings. \<exists>err. include_step e fp m (result, warnings) =
           (result, warnings @ [(include_target e fp m, err)])))
   \<and> processIncludeDirectives e content fp =
       foldl (\<lambda>st m. include_step e fp m st) (content, []) (include_matches [] content)
   \<and> fst (processIncludeDirectives e content fp) =
       fst (foldl (\<lambda>st m. include_step e fp m st) (content, [])
              (filter (\<lambda>m. readable e (include_target e fp m)) (include_matches [] content)))
   \<and> ((\<forall>m\<in>set (include_matches [] content). \<not> readable e (include_target e fp m)) \<longrightarrow>
        fst (processIncludeDirectives e content fp) = content \<and>
        map fst (snd (processIncludeDirectives e content fp)) =
          map (include_target e fp) (include_matches [] content))
   \<and> processIncludeDirectives no_snippet_env include_doc ''/site/docs/page.md'' =
       (include_doc, [(''/site/docs/snippet.md'', ENOENT ''/site/docs/snippet.md'')])"
  unfolding processIncludeDirectives_def include_loop_fold
  using include_step_unreadable[of e fp]
    include_fold_filter[of e fp content "[]" "include_matches [] content"]
    include_fold_all_unreadable[of "include_matches [] content" e fp content "[]"]
    missing_example[unfolded processIncludeDirectives_def include_loop_fold]
  by (intro conjI ballI impI allI) simp_all

text \<open>
  Claim C4. The directive's text is replaced through \<open>String.prototype.replace\<close> with the
  file's contents as the replacement text, so \<open>$$\<close>, \<open>$&\<close>, \<open>$`\<close> and \<open>$'\<close> in the file
  are expanded instead of copied. With the snippet \<open>X\<close> the page becomes \<open>A / X / B\<close>; with the
  snippet \<open>$$x$$\<close> it becomes \<open>A / $x$ / B\<close>, which is not the snippet's raw contents.
\<close>

theorem include_dollar_patterns:
  "fst (processIncludeDirectives (snippet_env ''X'') include_doc ''/site/docs/page.md'') =
     ''A'' @ [CHR 0x0A] @ ''X'' @ [CHR 0x0A] @ ''B''
   \<and> fst (processIncludeDirectives (snippet_env ''$$x$$'') include_doc ''/site/docs/page.md'') =
     ''A'' @ [CHR 0x0A] @ ''$x$'' @ [CHR 0x0A] @ ''B''
   \<and> fst (processIncludeDirectives (snippet_env ''$$x$$'') include_doc ''/site/docs/page.md'') \<noteq>
     ''A'' @ [CHR 0x0A] @ ''$$x$$'' @ [CHR 0x0A] @ ''B''"
  by code_simp

text \<open>
  Claim C5. A read that throws is caught, so the call returns for every content, and
  for the page \<open>A / INCLUDE snippet.md / B\<close> without the snippet the result is the page
  unchanged with one warning. But the text of a failing directive is not safe from a
  later directive: the replacement goes to the first occurrence of the later
  directive's text in the working result. In the content
  \<open><!-- INCLUDE <!-- INCLUDE a.md -->|<!-- INCLUDE a.md -->\<close> the first directive names the
  missing file \<open><!-- INCLUDE a.md\<close> and fails; the second is read (\<open>X\<close>) and its text is
  replaced inside the first. The failing directive is then neither left as it was nor
  dropped.
\<close>

theorem include_failure_overwritten:
  "processIncludeDirectives no_snippet_env include_doc ''/site/docs/page.md'' =
     (include_doc, [(''/site/docs/snippet.md'', ENOENT ''/site/docs/snippet.md'')])
   \<and> include_matches [] nested_doc =
       [[''<!--'', '' '', ''INCLUDE'', '' '', ''<!-- INCLUDE a.md'', '' '', ''-->''],
        [''<!--'', '' '', ''INCLUDE'', '' '', ''a.md'', '' '', ''-->'']]
   \<and> \<not> readable nested_env (include_target nested_env ''/site/docs/page.md''
           [''<!--'', '' '', ''INCLUDE'', '' '', ''<!-- INCLUDE a.md'', '' '', ''-->''])
   \<and> processIncludeDirectives nested_env nested_doc ''/site/docs/page.md'' =
       (''<!-- INCLUDE X|<!-- INCLUDE a.md -->'',
        [(''/site/docs/<!-- INCLUDE a.md'', ENOENT ''/site/docs/<!-- INCLUDE a.md'')])"
  by code_simp

section \<open>Proofs: splitting and joining\<close>

lemma split_acc_sep:
  "split_acc sep acc (a @ sep # b) = split_acc sep acc a @ split_acc sep [] b"
  by (induction a arbitrary: acc) auto

lemma split_append_sep: "split sep (a @ sep # b) = split sep a @ split sep b"
  by (simp add: split_def split_acc_sep)

lemma split_acc_clean: "sep \<notin> set s \<Longrightarrow> split_acc sep acc s = [rev acc @ s]"
  by (induction s arbitrary: acc) auto

lemma split_clean: "sep \<notin> set s \<Longrightarrow> split sep s = [s]"
  by (simp add: split_def split_acc_clean)

lemma split_join:
  "ds \<noteq> [] \<Longrightarrow> \<forall>d\<in>set ds. sep \<notin> set d \<Longrightarrow> split sep (join [sep] ds) = ds"
proof (induction "[sep]" ds rule: join.induct)
  case 1
  then show ?case by simp
next
  case (2 x)
  then show ?case by (simp add: split_clean)
next
  case (3 x y ys)
  then show ?case by (simp add: split_append_sep split_clean)
qed

lemma join_append:
  "a \<noteq> [] \<Longrightarrow> b \<noteq> [] \<Longrightarrow> join sep (a @ b) = join sep a @ sep @ join sep b"
proof (induction sep a rule: join.induct)
  case (2 sep x)
  then show ?case by (cases b) simp_all
qed simp_all

lemma join_snoc_suffix: "join sep (ds @ [a @ b]) = join sep (ds @ [a]) @ b"
  by (induction sep ds rule: join.induct) simp_all

lemma set_join: "set (join sep ds) \<subseteq> set sep \<union> \<Union> (set ` set ds)"
  by (induction sep ds rule: join.induct) auto

section \<open>Proofs: the extension pattern\<close>

lemma bt_Lit_SomeE:
  assumes "bt (Lit s # as) pre rest = Some segs"
  obtains r where "take (length s) rest = s" "segs = s # r"
    "bt as (rev s @ pre) (drop (length s) rest) = Some r"
  using assms by (auto split: if_splits)

lemma bt_Eol_SomeD: "bt (Eol # as) pre rest = Some segs \<Longrightarrow> rest = []"
  by (auto split: if_splits)

declare bt.simps [simp del]

lemma md_ext_bt_SomeD:
  assumes "bt md_ext_re pre rest = Some segs"
  shows "length rest \<le> 4 \<and> 3 \<le> length rest \<and>
         (rest ! 1 = CHR ''m'' \<or> rest ! 1 = CHR ''M'')"
proof -
  let ?m = "\<lambda>c. c = CHR ''m'' \<or> c = CHR ''M''"
  let ?d = "\<lambda>c. c = CHR ''d'' \<or> c = CHR ''D''"
  let ?x = "\<lambda>c. c = CHR ''x'' \<or> c = CHR ''X''"
  from assms[unfolded md_ext_re_def] obtain r1 where
    t: "take (length ''.'') rest = ''.''" and
    r1: "bt [Rep ?m 1 (Some 1) True, Rep ?d 1 (Some 1) True, Rep ?x 0 (Some 1) True, Eol]
           (rev ''.'' @ pre) (drop (length ''.'') rest) = Some r1"
    by (rule bt_Lit_SomeE)
  from t have ne: "rest \<noteq> []" by auto
  let ?t1 = "drop (length ''.'') rest"
  from bt_Rep_SomeD[OF r1] obtain k1 r2 where
    k1: "1 \<le> k1" "k1 \<le> length (takeWhile ?m ?t1)" "k1 \<le> 1"
    and r2: "bt [Rep ?d 1 (Some 1) True, Rep ?x 0 (Some 1) True, Eol]
               (rev (take k1 ?t1) @ rev ''.'' @ pre) (drop k1 ?t1) = Some r2"
    by auto
  have k1eq: "k1 = 1" using k1 by simp
  let ?t2 = "drop k1 ?t1"
  from bt_Rep_SomeD[OF r2] obtain k2 r3 where
    k2: "1 \<le> k2" "k2 \<le> length (takeWhile ?d ?t2)" "k2 \<le> 1"
    and r3: "bt [Rep ?x 0 (Some 1) True, Eol]
               (rev (take k2 ?t2) @ rev (take k1 ?t1) @ rev ''.'' @ pre) (drop k2 ?t2) = Some r3"
    by auto
  let ?t3 = "drop k2 ?t2"
  from bt_Rep_SomeD[OF r3] obtain k3 r4 where
    k3: "k3 \<le> 1"
    and r4: "bt [Eol] (rev (take k3 ?t3) @ rev (take k2 ?t2) @ rev (take k1 ?t1) @ rev ''.'' @ pre)
               (drop k3 ?t3) = Some r4"
    by auto
  from bt_Eol_SomeD[OF r4] have e: "drop k3 ?t3 = []" .
  have l1: "k1 \<le> length ?t1" using k1(2) length_takeWhile_le[of ?m ?t1] by linarith
  have l2: "k2 \<le> length ?t2" using k2(2) length_takeWhile_le[of ?d ?t2] by linarith
  have len: "length rest \<le> 4" using e k1 k2 k3 by simp
  have len3: "3 \<le> length rest" using l1 l2 k1 k2 ne by (cases rest) auto
  have "takeWhile ?m ?t1 \<noteq> []" using k1 by auto
  then have "?m (hd ?t1)" by (cases ?t1) (auto split: if_splits)
  moreover have "hd ?t1 = rest ! 1" using len3 by (simp add: hd_drop_conv_nth)
  ultimately show ?thesis using len len3 by simp
qed

lemma md_ext_bt_md: "bt md_ext_re pre ''.md'' = Some [''.'', ''m'', ''d'', [], []]"
  by (simp add: md_ext_re_def candidates_def bt.simps)

lemma md_ext_bt_mdx: "bt md_ext_re pre ''.mdx'' = Some [''.'', ''m'', ''d'', ''x'', []]"
  by (simp add: md_ext_re_def candidates_def bt.simps)

declare bt.simps [simp]

lemma exec_md:
  "exec_from md_ext_re pre (s @ ''.md'') = Some (rev pre @ s, [''.'', ''m'', ''d'', [], []], [])"
proof (induction s arbitrary: pre)
  case Nil
  then show ?case using md_ext_bt_md[of pre] by simp
next
  case (Cons c cs)
  have "bt md_ext_re pre (c # cs @ ''.md'') = None"
  proof (rule ccontr)
    assume "bt md_ext_re pre (c # cs @ ''.md'') \<noteq> None"
    then obtain segs where "bt md_ext_re pre (c # cs @ ''.md'') = Some segs" by auto
    from md_ext_bt_SomeD[OF this] show False by (cases cs) auto
  qed
  then show ?case using Cons.IH[of "c # pre"] by simp
qed

lemma exec_mdx:
  "exec_from md_ext_re pre (s @ ''.mdx'') = Some (rev pre @ s, [''.'', ''m'', ''d'', ''x'', []], [])"
proof (induction s arbitrary: pre)
  case Nil
  then show ?case using md_ext_bt_mdx[of pre] by simp
next
  case (Cons c cs)
  have "bt md_ext_re pre (c # cs @ ''.mdx'') = None"
  proof (rule ccontr)
    assume "bt md_ext_re pre (c # cs @ ''.mdx'') \<noteq> None"
    then obtain segs where "bt md_ext_re pre (c # cs @ ''.mdx'') = Some segs" by auto
    from md_ext_bt_SomeD[OF this] show False by simp
  qed
  then show ?case using Cons.IH[of "c # pre"] by simp
qed

lemma strip_md: "replace_first md_ext_re [] (s @ ''.md'') = s"
  using exec_md[of "[]" s] by (simp add: replace_first_def exec_def)

lemma strip_mdx: "replace_first md_ext_re [] (s @ ''.mdx'') = s"
  using exec_mdx[of "[]" s] by (simp add: replace_first_def exec_def)

section \<open>Proofs: paths below a root\<close>

lemma normalize_segs_clean:
  "\<forall>d\<in>set segs. clean_segment d \<Longrightarrow>
   normalize_segs up res (segs @ tl_segs) = normalize_segs up (rev segs @ res) tl_segs"
  by (induction segs arbitrary: res) (auto simp: clean_segment_def)

lemma split_rooted:
  assumes "xs \<noteq> []" "\<forall>d\<in>set xs. clean_segment d"
  shows "split (CHR ''/'') (''/'' @ join ''/'' xs) = [] # xs"
proof -
  have "split (CHR ''/'') ([] @ CHR ''/'' # join ''/'' xs) =
        split (CHR ''/'') [] @ split (CHR ''/'') (join ''/'' xs)"
    by (rule split_append_sep)
  moreover have "split (CHR ''/'') (join ''/'' xs) = xs"
    using assms by (intro split_join) (auto simp: clean_segment_def)
  ultimately show ?thesis by (simp add: split_def)
qed

lemma split_rooted_slash:
  assumes "xs \<noteq> []" "\<forall>d\<in>set xs. clean_segment d"
  shows "split (CHR ''/'') ((''/'' @ join ''/'' xs) @ ''/'') = [] # xs @ [[]]"
proof -
  have "split (CHR ''/'') ((''/'' @ join ''/'' xs) @ CHR ''/'' # []) =
        split (CHR ''/'') (''/'' @ join ''/'' xs) @ split (CHR ''/'') []"
    by (rule split_append_sep)
  then show ?thesis using split_rooted[OF assms] by (simp add: split_def)
qed


lemma path_resolve_rooted:
  assumes "xs \<noteq> []" "\<forall>d\<in>set xs. clean_segment d"
  shows "path_resolve wd [''/'' @ join ''/'' xs] = ''/'' @ join ''/'' xs"
proof -
  let ?p = "''/'' @ join ''/'' xs"
  have r: "resolve_acc (rev [wd, ?p]) [] = ?p @ ''/''"
    by (simp add: isAbsolute_def)
  have "normalize_segs False [] ([] # xs @ [[]]) = xs"
    using normalize_segs_clean[OF assms(2), of False "[]" "[[]]"] by simp
  then have n: "normalizeString (?p @ ''/'') False = join ''/'' xs"
    using split_rooted_slash[OF assms] by (simp add: normalizeString_def)
  show ?thesis
    unfolding path_resolve_def Let_def using r n by (simp add: isAbsolute_def)
qed

lemma common_prefix_append: "common_prefix xs (xs @ ys) = length xs"
  by (induction xs) simp_all

lemma filter_split_rooted:
  assumes "xs \<noteq> []" "\<forall>d\<in>set xs. clean_segment d"
  shows "filter (\<lambda>s. s \<noteq> []) (split (CHR ''/'') (''/'' @ join ''/'' xs)) = xs"
proof -
  have "filter (\<lambda>s. s \<noteq> []) xs = xs"
    using assms(2) by (auto simp: clean_segment_def intro: filter_True)
  then show ?thesis using split_rooted[OF assms] by simp
qed

lemma path_relative_below:
  assumes rs: "rs \<noteq> []" "\<forall>d\<in>set rs. clean_segment d"
    and fs: "fs \<noteq> []" "\<forall>d\<in>set fs. clean_segment d"
  shows "path_relative wd (''/'' @ join ''/'' rs) ((''/'' @ join ''/'' rs) @ ''/'' @ join ''/'' fs)
         = join ''/'' fs"
proof -
  have j: "(''/'' @ join ''/'' rs) @ ''/'' @ join ''/'' fs = ''/'' @ join ''/'' (rs @ fs)"
    using rs(1) fs(1) by (simp add: join_append)
  have c: "rs @ fs \<noteq> []" "\<forall>d\<in>set (rs @ fs). clean_segment d"
    using rs fs by auto
  show ?thesis
    unfolding path_relative_def Let_def j
    by (simp only: path_resolve_rooted[OF rs] path_resolve_rooted[OF c]
        filter_split_rooted[OF rs] filter_split_rooted[OF c] common_prefix_append)
       simp
qed

lemma backslashes_none:
  "\<forall>d\<in>set ds. clean_segment d \<Longrightarrow> backslashes_to_slashes (join ''/'' ds) = join ''/'' ds"
proof -
  assume a: "\<forall>d\<in>set ds. clean_segment d"
  have "CHR 0x5C \<notin> set (join ''/'' ds)"
    using set_join[of "''/''" ds] a by (auto simp: clean_segment_def)
  then show ?thesis
    unfolding backslashes_to_slashes_def by (intro map_idI) auto
qed

section \<open>Proofs: slugFromFile\<close>

lemma slug_of_relative_stripped:
  assumes "replace_first md_ext_re [] rel = join ''/'' ps" "ps \<noteq> []" "\<forall>d\<in>set ps. clean_segment d"
  shows "slug_of_relative rel = (if last ps = ''index'' then butlast ps else ps)"
proof -
  have "split (CHR ''/'') (join ''/'' ps) = ps"
    using assms(2,3) by (intro split_join) (auto simp: clean_segment_def)
  moreover have "filter (\<lambda>p. p \<noteq> []) ps = ps"
    using assms(3) by (auto simp: clean_segment_def intro: filter_True)
  ultimately show ?thesis using assms(1,2) by (simp add: slug_of_relative_def)
qed

lemma clean_index: "clean_segment ''index''"
  by (simp add: clean_segment_def)

lemma slug_of_relative_index_md:
  assumes "\<forall>d\<in>set ds. clean_segment d"
  shows "slug_of_relative (join ''/'' (ds @ [''index.md''])) = ds"
proof -
  have "join ''/'' (ds @ [''index.md'']) = join ''/'' (ds @ [''index'']) @ ''.md''"
    using join_snoc_suffix[of "''/''" ds "''index''" "''.md''"] by simp
  then have "replace_first md_ext_re [] (join ''/'' (ds @ [''index.md''])) = join ''/'' (ds @ [''index''])"
    by (simp only: strip_md)
  from slug_of_relative_stripped[OF this] show ?thesis using assms clean_index by simp
qed

lemma slug_of_relative_index_mdx:
  assumes "\<forall>d\<in>set ds. clean_segment d"
  shows "slug_of_relative (join ''/'' (ds @ [''index.mdx''])) = ds"
proof -
  have "join ''/'' (ds @ [''index.mdx'']) = join ''/'' (ds @ [''index'']) @ ''.mdx''"
    using join_snoc_suffix[of "''/''" ds "''index''" "''.mdx''"] by simp
  then have "replace_first md_ext_re [] (join ''/'' (ds @ [''index.mdx''])) = join ''/'' (ds @ [''index''])"
    by (simp only: strip_mdx)
  from slug_of_relative_stripped[OF this] show ?thesis using assms clean_index by simp
qed

lemma slug_of_relative_md:
  assumes "ds \<noteq> []" "\<forall>d\<in>set ds. clean_segment d"
  shows "slug_of_relative (join ''/'' ds @ ''.md'') = (if last ds = ''index'' then butlast ds else ds)"
  using slug_of_relative_stripped[OF strip_md assms] .

section \<open>Proofs: the link rewriter\<close>












































section \<open>Proofs: documents\<close>

lemma find_None_all: "\<forall>x\<in>set xs. \<not> P x \<Longrightarrow> find P xs = None"
  by (simp add: find_None_iff)

text \<open>
  Claim C8. For every locale and every slug other than the single segment \<open>changelog\<close>:
  when none of the four candidate files exists, \<open>getDoc\<close> returns \<open>null\<close> and throws
  nothing.
\<close>

theorem getDoc_not_found:
  "slug_segments \<noteq> [''changelog''] \<Longrightarrow>
   \<forall>candidate\<in>set (doc_candidates e locale slug_segments). \<not> existsSync e candidate \<Longrightarrow>
   getDoc e locale slug_segments = Inr None"
  by (simp add: getDoc_def resolveDocPath_def find_None_all)

text \<open>The statement at the locale \<open>zh\<close> and the slug \<open>api/foo\<close>, where only the default
  locale has the document.\<close>

theorem getDoc_not_found_witness:
  "[''api'', ''foo''] \<noteq> [''changelog'']
   \<and> doc_candidates api_foo_env Zh [''api'', ''foo''] =
       [''/site/taffy-layout/docs/i18n/zh-CN/api/foo/index.md'',
        ''/site/taffy-layout/docs/i18n/zh-CN/api/foo/index.mdx'',
        ''/site/taffy-layout/docs/i18n/zh-CN/api/foo.md'',
        ''/site/taffy-layout/docs/i18n/zh-CN/api/foo.mdx'']
   \<and> list_all (\<lambda>candidate. \<not> existsSync api_foo_env candidate)
         (doc_candidates api_foo_env Zh [''api'', ''foo''])
   \<and> getDoc api_foo_env Zh [''api'', ''foo''] = Inr None"
proof -
  have c: "doc_candidates api_foo_env Zh [''api'', ''foo''] =
       [''/site/taffy-layout/docs/i18n/zh-CN/api/foo/index.md'',
        ''/site/taffy-layout/docs/i18n/zh-CN/api/foo/index.mdx'',
        ''/site/taffy-layout/docs/i18n/zh-CN/api/foo.md'',
        ''/site/taffy-layout/docs/i18n/zh-CN/api/foo.mdx'']"
    by code_simp
  have n: "list_all (\<lambda>candidate. \<not> existsSync api_foo_env candidate)
         (doc_candidates api_foo_env Zh [''api'', ''foo''])"
    by code_simp
  then have "\<forall>candidate\<in>set (doc_candidates api_foo_env Zh [''api'', ''foo'']).
         \<not> existsSync api_foo_env candidate"
    by (simp add: list_all_iff)
  from getDoc_not_found[OF _ this] have "getDoc api_foo_env Zh [''api'', ''foo''] = Inr None"
    by simp
  then show ?thesis using c n by simp
qed

section \<open>Proofs: the slug of a file\<close>

lemma slugFromFile_below:
  assumes rs: "rs \<noteq> []" "\<forall>d\<in>set rs. clean_segment d"
    and fs: "fs \<noteq> []" "\<forall>d\<in>set fs. clean_segment d"
  shows "slugFromFile e (''/'' @ join ''/'' rs) ((''/'' @ join ''/'' rs) @ ''/'' @ join ''/'' fs) =
         slug_of_relative (join ''/'' fs)"
  unfolding slugFromFile_def
  by (simp only: path_relative_below[OF rs fs] backslashes_none[OF fs(2)])

lemma clean_with_ext: "clean_segment d \<Longrightarrow> clean_segment (d @ ''.md'')"
  by (auto simp: clean_segment_def)

lemma clean_index_md: "clean_segment ''index.md''" "clean_segment ''index.mdx''"
  by (simp_all add: clean_segment_def)

text \<open>
  Claim C6. For every root (an absolute path of clean segments) and every directory
  path \<open>ds\<close> below it: the files \<open>ds/index.md\<close> and \<open>ds/index.mdx\<close> both have the slug
  \<open>ds\<close>; the file \<open>ds.md\<close> has the slug \<open>ds\<close>, without its last segment exactly when that
  segment is \<open>index\<close>. So \<open>x/y/index.md\<close>, \<open>x/y/index.mdx\<close> and \<open>x/y.md\<close> all give
  \<open>[x, y]\<close>, and the root's index file gives the empty list.
\<close>

theorem slugFromFile_index:
  "rs \<noteq> [] \<Longrightarrow> \<forall>d\<in>set rs. clean_segment d \<Longrightarrow> \<forall>d\<in>set ds. clean_segment d \<Longrightarrow>
   root = ''/'' @ join ''/'' rs \<Longrightarrow>
   slugFromFile e root (root @ ''/'' @ join ''/'' (ds @ [''index.md''])) = ds
   \<and> slugFromFile e root (root @ ''/'' @ join ''/'' (ds @ [''index.mdx''])) = ds
   \<and> (ds \<noteq> [] \<longrightarrow>
        slugFromFile e root (root @ ''/'' @ join ''/'' ds @ ''.md'') =
          (if last ds = ''index'' then butlast ds else ds))
   \<and> slugFromFile e root (root @ ''/x/y/index.md'') = [''x'', ''y'']
   \<and> slugFromFile e root (root @ ''/x/y/index.mdx'') = [''x'', ''y'']
   \<and> slugFromFile e root (root @ ''/x/y.md'') = [''x'', ''y'']
   \<and> slugFromFile e root (root @ ''/index.md'') = []"
proof -
  assume rs: "rs \<noteq> []" "\<forall>d\<in>set rs. clean_segment d"
    and ds: "\<forall>d\<in>set ds. clean_segment d" and root: "root = ''/'' @ join ''/'' rs"
  have md: "slugFromFile e root (root @ ''/'' @ join ''/'' (xs @ [''index.md''])) = xs"
    if "\<forall>d\<in>set xs. clean_segment d" for xs
  proof -
    have "\<forall>d\<in>set (xs @ [''index.md'']). clean_segment d" using that clean_index_md by simp
    from slugFromFile_below[OF rs _ this, of e] show ?thesis
      unfolding root using slug_of_relative_index_md[OF that] by simp
  qed
  have mdx: "slugFromFile e root (root @ ''/'' @ join ''/'' (xs @ [''index.mdx''])) = xs"
    if "\<forall>d\<in>set xs. clean_segment d" for xs
  proof -
    have "\<forall>d\<in>set (xs @ [''index.mdx'']). clean_segment d" using that clean_index_md by simp
    from slugFromFile_below[OF rs _ this, of e] show ?thesis
      unfolding root using slug_of_relative_index_mdx[OF that] by simp
  qed
  have plain: "slugFromFile e root (root @ ''/'' @ join ''/'' xs @ ''.md'') =
          (if last xs = ''index'' then butlast xs else xs)"
    if x: "xs \<noteq> []" "\<forall>d\<in>set xs. clean_segment d" for xs
  proof -
    let ?fs = "butlast xs @ [last xs @ ''.md'']"
    have j: "join ''/'' ?fs = join ''/'' xs @ ''.md''"
      using join_snoc_suffix[of "''/''" "butlast xs" "last xs" "''.md''"] x(1) by simp
    have "clean_segment (last xs)" using x by simp
    then have c: "\<forall>d\<in>set ?fs. clean_segment d"
      using x(2) clean_with_ext by (auto dest: in_set_butlastD)
    from slugFromFile_below[OF rs _ c, of e] show ?thesis
      unfolding root j using slug_of_relative_md[OF x] by simp
  qed
  have xy: "\<forall>d\<in>set [''x'', ''y'']. clean_segment d" by (simp add: clean_segment_def)
  have "slugFromFile e root (root @ ''/x/y/index.md'') = [''x'', ''y'']" using md[OF xy] by simp
  moreover have "slugFromFile e root (root @ ''/x/y/index.mdx'') = [''x'', ''y'']"
    using mdx[OF xy] by simp
  moreover have "slugFromFile e root (root @ ''/x/y.md'') = [''x'', ''y'']"
    using plain[OF _ xy] by simp
  moreover have "slugFromFile e root (root @ ''/index.md'') = []" using md[of "[]"] by simp
  ultimately show ?thesis using md[OF ds] mdx[OF ds] plain[OF _ ds] by simp
qed

text \<open>The statement at the root of the default locale and the directory \<open>guides/index\<close>,
  whose last segment is \<open>index\<close>.\<close>

theorem slugFromFile_index_witness:
  "list_all clean_segment [''site'', ''taffy-layout'', ''docs'']
   \<and> list_all clean_segment [''guides'', ''index'']
   \<and> slugFromFile (site (\<lambda>p. None)) ''/site/taffy-layout/docs''
         ''/site/taffy-layout/docs/guides/index/index.md'' = [''guides'', ''index'']
   \<and> slugFromFile (site (\<lambda>p. None)) ''/site/taffy-layout/docs''
         ''/site/taffy-layout/docs/guides/index.md'' = [''guides'']
   \<and> slugFromFile (site (\<lambda>p. None)) ''/site/taffy-layout/docs''
         ''/site/taffy-layout/docs/x/y.md'' = [''x'', ''y'']
   \<and> slugFromFile (site (\<lambda>p. None)) ''/site/taffy-layout/docs''
         ''/site/taffy-layout/docs/index.md'' = []"
proof -
  have r: "[''site'', ''taffy-layout'', ''docs''] \<noteq> []"
    "\<forall>d\<in>set [''site'', ''taffy-layout'', ''docs'']. clean_segment d"
    by (simp_all add: clean_segment_def)
  have d: "\<forall>d\<in>set [''guides'', ''index'']. clean_segment d"
    by (simp add: clean_segment_def)
  have root: "''/site/taffy-layout/docs'' = ''/'' @ join ''/'' [''site'', ''taffy-layout'', ''docs'']"
    by simp
  from slugFromFile_index[OF r d root, of "site (\<lambda>p. None)"]
  show ?thesis using r(2) d by (simp add: list_all_iff)
qed

section \<open>Proofs: the sidebar\<close>

lemma all_valid_iff:
  "all_valid item \<longleftrightarrow> has_link_or_children item \<and> (\<forall>child\<in>set (children_of item). all_valid child)"
  by (cases item) (auto simp: has_link_or_children_def children_of_def split: option.splits)

lemma upsert_nonempty: "upsert segment f items \<noteq> []"
  by (cases items) auto

lemma upsert_valid:
  assumes "\<forall>child\<in>set items. all_valid child"
    and "\<And>child. all_valid child \<Longrightarrow> all_valid (f child)"
    and "all_valid (f (new_section segment))"
  shows "\<forall>child\<in>set (upsert segment f items). all_valid child"
  using assms by (induction items) auto

lemma below_valid_new_section: "below_valid (new_section segment)"
  by (simp add: below_valid_def new_section_def children_of_def)

lemma attach_valid: "below_valid current \<Longrightarrow> all_valid (attach locale doc current)"
  by (cases current)
     (auto simp: attach_def below_valid_def children_of_def split: option.splits)

lemma insert_doc_valid:
  "below_valid current \<Longrightarrow> all_valid (insert_doc locale doc segments current)"
proof (induction segments arbitrary: current)
  case Nil
  then show ?case by (simp add: attach_valid)
next
  case (Cons segment rest)
  obtain title href ord children seg where c: "current = NavItem title href ord children seg"
    by (cases current)
  show ?case
  proof (cases "rest = [] \<and> \<not> meta_isIndex doc")
    case True
    have "below_valid (NavItem title href ord (Some (children_of current)) seg)"
      using Cons.prems by (simp add: below_valid_def children_of_def)
    from Cons.IH[OF this] show ?thesis using True c by simp
  next
    case False
    have v: "\<forall>child\<in>set (children_of current). all_valid child"
      using Cons.prems by (simp add: below_valid_def)
    have f: "all_valid (insert_doc locale doc rest child)" if "all_valid child" for child
      using that Cons.IH[of child] all_valid_iff[of child] by (simp add: below_valid_def)
    have n: "all_valid (insert_doc locale doc rest (new_section segment))"
      by (rule Cons.IH[OF below_valid_new_section])
    from upsert_valid[of "children_of current" "insert_doc locale doc rest" segment, OF v f n]
    have "\<forall>child\<in>set (upsert segment (insert_doc locale doc rest) (children_of current)). all_valid child"
      by simp
    then show ?thesis
      using False c upsert_nonempty[of segment "insert_doc locale doc rest" "children_of current"]
      by (auto simp: Let_def)
  qed
qed

lemma all_valid_below: "all_valid item \<Longrightarrow> below_valid item"
  by (simp add: below_valid_def all_valid_iff[of item])

lemma sidebar_step_valid:
  assumes "below_valid root" "case home of None \<Rightarrow> True | Some h \<Rightarrow> all_valid h"
  shows "below_valid (fst (sidebar_step locale (root, home) doc)) \<and>
         (case snd (sidebar_step locale (root, home) doc) of None \<Rightarrow> True | Some h \<Rightarrow> all_valid h)"
proof -
  have "below_valid (insert_doc locale doc (meta_slug doc) root)"
    by (rule all_valid_below[OF insert_doc_valid[OF assms(1)]])
  moreover have "all_valid (home_item locale doc)"
    by (simp add: home_item_def)
  ultimately show ?thesis
    using assms by (auto simp add: sidebar_step_def simp del: insert_doc.simps)
qed

lemma sidebar_state_valid:
  "below_valid (fst (sidebar_state locale docs)) \<and>
   (case snd (sidebar_state locale docs) of None \<Rightarrow> True | Some h \<Rightarrow> all_valid h)"
proof -
  have "below_valid (fst (foldl (sidebar_step locale) st docs)) \<and>
        (case snd (foldl (sidebar_step locale) st docs) of None \<Rightarrow> True | Some h \<Rightarrow> all_valid h)"
    if "below_valid (fst st)" "case snd st of None \<Rightarrow> True | Some h \<Rightarrow> all_valid h" for st
    using that
  proof (induction docs arbitrary: st)
    case Nil
    then show ?case by simp
  next
    case (Cons doc docs)
    obtain root home where st: "st = (root, home)" by (cases st)
    from sidebar_step_valid[of root home "locale" doc] Cons.prems st
    have "below_valid (fst (sidebar_step locale st doc))"
      "case snd (sidebar_step locale st doc) of None \<Rightarrow> True | Some h \<Rightarrow> all_valid h"
      by simp_all
    from Cons.IH[OF this] show ?case by simp
  qed
  from this[of "(NavItem ''root'' None 0 (Some []) None, None)"]
  show ?thesis
    by (simp add: sidebar_state_def below_valid_def[of "NavItem ''root'' None 0 (Some []) None"]
        children_of_def)
qed

lemma sort_by_Nil_iff: "sort_by cmp xs = [] \<longleftrightarrow> xs = []"
  using set_sort_by[of cmp xs] by (metis set_empty)

lemma sort_item_valid: "all_valid item \<Longrightarrow> all_valid (sort_item lc item)"
proof (induction lc item rule: sort_item.induct)
  case (1 lc title href ord children segment)
  show ?case
  proof (cases children)
    case None
    then show ?thesis using "1.prems" by simp
  next
    case (Some items)
    have "all_valid (sort_item lc x)" if "x \<in> set (sort_by (compare_items lc) items)" for x
      using that "1.IH"[OF Some that] "1.prems" Some by (simp add: set_sort_by)
    then show ?thesis using "1.prems" Some by (auto simp: sort_by_Nil_iff)
  qed
qed

text \<open>
  Claim C9. For every locale, every collation and every list of document metadata,
  every node of the tree that \<open>getSidebar\<close> returns, at every depth, has a link or at
  least one child.
\<close>

theorem getSidebar_nodes_valid:
  "\<forall>item\<in>set (getSidebar lc locale docs). all_valid item"
proof -
  obtain root home where st: "sidebar_state locale docs = (root, home)"
    by (cases "sidebar_state locale docs")
  from sidebar_state_valid[of "locale" docs] st
  have r: "below_valid root" and h: "case home of None \<Rightarrow> True | Some h \<Rightarrow> all_valid h"
    by simp_all
  have "\<forall>item\<in>set (case sortTree lc (nav_children root) of None \<Rightarrow> [] | Some xs \<Rightarrow> xs). all_valid item"
    using r
    by (auto simp: sortTree_def below_valid_def children_of_def set_sort_by sort_item_valid
        split: option.splits)
  then show ?thesis using h st by (auto simp: getSidebar_def split: option.splits)
qed

text \<open>The statement at a site with a home page, a section with an index and a document
  two levels deep, whose sections \<open>x\<close> and \<open>y\<close> have no index.\<close>

theorem getSidebar_nodes_valid_witness:
  "list_all all_valid (getSidebar unit_compare Zh site_docs)
   \<and> map nav_title (getSidebar unit_compare Zh site_docs) =
       [''Home'', ''Intro'', ''Apple'', ''Banana'', ''Guides'', ''X'', ''Zebra'']"
proof -
  have "map nav_title (getSidebar unit_compare Zh site_docs) =
       [''Home'', ''Intro'', ''Apple'', ''Banana'', ''Guides'', ''X'', ''Zebra'']"
    by code_simp
  then show ?thesis
    using getSidebar_nodes_valid[of unit_compare Zh site_docs] by (simp add: list_all_iff)
qed

lemma precedes_iff: "compare_items lc a b \<le> 0 \<longleftrightarrow> precedes lc a b"
  by (auto simp: compare_items_def precedes_def)

lemma precedes_total:
  assumes "consistent lc"
  shows "precedes lc a b \<or> precedes lc b a"
proof -
  from assms have "lc (nav_title a) (nav_title b) \<le> 0 \<or> lc (nav_title b) (nav_title a) \<le> 0"
    unfolding consistent_def by blast
  then show ?thesis
    unfolding precedes_def by (cases "nav_order a" "nav_order b" rule: linorder_cases) auto
qed

lemma precedes_trans:
  assumes "consistent lc" "precedes lc a b" "precedes lc b c"
  shows "precedes lc a c"
proof -
  from assms(1) have tr: "lc x y \<le> 0 \<Longrightarrow> lc y z \<le> 0 \<Longrightarrow> lc x z \<le> 0" for x y z
    unfolding consistent_def by blast
  from assms(2,3) show ?thesis
    unfolding precedes_def by (elim disjE conjE) (auto intro: tr)
qed

lemma insert_by_sorted:
  assumes c: "consistent lc"
  shows "sorted_wrt (precedes lc) xs \<Longrightarrow>
         sorted_wrt (precedes lc) (insert_by (compare_items lc) x xs)"
proof (induction xs)
  case Nil
  then show ?case by simp
next
  case (Cons y ys)
  show ?case
  proof (cases "compare_items lc y x \<le> 0")
    case True
    then have "precedes lc y x" by (simp add: precedes_iff)
    then show ?thesis using True Cons by (auto simp: set_insert_by)
  next
    case False
    then have "\<not> precedes lc y x" by (simp add: precedes_iff)
    then have xy: "precedes lc x y" using precedes_total[OF c] by blast
    then have "\<forall>z\<in>set ys. precedes lc x z"
      using Cons.prems precedes_trans[OF c] by auto
    then show ?thesis using False xy Cons.prems by simp
  qed
qed

lemma sort_by_sorted:
  assumes "consistent lc"
  shows "sorted_wrt (precedes lc) (sort_by (compare_items lc) xs)"
proof -
  have "sorted_wrt (precedes lc) (foldl (\<lambda>sorted x. insert_by (compare_items lc) x sorted) acc xs)"
    if "sorted_wrt (precedes lc) acc" for acc
    using that by (induction xs arbitrary: acc) (simp_all add: insert_by_sorted[OF assms])
  then show ?thesis by (simp add: sort_by_def)
qed

lemma sort_item_key:
  "nav_order (sort_item lc item) = nav_order item \<and> nav_title (sort_item lc item) = nav_title item"
  by (cases item) simp

lemma precedes_sort_item:
  "precedes lc (sort_item lc a) (sort_item lc b) = precedes lc a b"
  by (simp add: precedes_def sort_item_key)

lemma sort_item_levels:
  "consistent lc \<Longrightarrow> levels_sorted lc (sort_item lc item)"
proof (induction lc item rule: sort_item.induct)
  case (1 lc title href ord children segment)
  show ?case
  proof (cases children)
    case None
    then show ?thesis by simp
  next
    case (Some items)
    have "sorted_wrt (precedes lc) (map (sort_item lc) (sort_by (compare_items lc) items))"
      using sort_by_sorted[OF "1.prems", of items]
      by (simp add: sorted_wrt_map precedes_sort_item)
    moreover have "levels_sorted lc (sort_item lc x)"
      if "x \<in> set (sort_by (compare_items lc) items)" for x
      using "1.IH"[OF Some that] "1.prems" by simp
    ultimately show ?thesis using Some by auto
  qed
qed

lemma sortTree_levels:
  assumes "consistent lc"
  shows "sorted_levels lc (case sortTree lc items of None \<Rightarrow> [] | Some xs \<Rightarrow> xs)"
proof (cases items)
  case None
  then show ?thesis by (simp add: sortTree_def sorted_levels_def)
next
  case (Some xs)
  have "sorted_wrt (precedes lc) (map (sort_item lc) (sort_by (compare_items lc) xs))"
    using sort_by_sorted[OF assms, of xs] by (simp add: sorted_wrt_map precedes_sort_item)
  then show ?thesis
    using Some sort_item_levels[OF assms] by (auto simp: sortTree_def sorted_levels_def)
qed

lemma sidebar_home_fold:
  "snd (foldl (sidebar_step locale) (root, home) docs) =
     (case filter (\<lambda>d. meta_slug d = [] \<and> meta_isIndex d) docs of
        [] \<Rightarrow> home
      | d # ds \<Rightarrow> Some (home_item locale (last (d # ds))))"
proof (induction docs arbitrary: root home)
  case Nil
  then show ?case by simp
next
  case (Cons doc docs)
  let ?hs = "filter (\<lambda>d. meta_slug d = [] \<and> meta_isIndex d) docs"
  show ?case
  proof (cases "meta_slug doc = [] \<and> meta_isIndex doc")
    case True
    then have "sidebar_step locale (root, home) doc = (root, Some (home_item locale doc))"
      by (simp add: sidebar_step_def)
    then show ?thesis
      using True Cons.IH[of root "Some (home_item locale doc)"] by (cases ?hs) simp_all
  next
    case False
    then have "snd (sidebar_step locale (root, home) doc) = home"
      by (auto simp add: sidebar_step_def simp del: insert_doc.simps)
    then obtain root' where "sidebar_step locale (root, home) doc = (root', home)"
      by (cases "sidebar_step locale (root, home) doc") auto
    then show ?thesis using False Cons.IH[of root' home] by auto
  qed
qed

lemma sidebar_home:
  "snd (sidebar_state locale docs) =
     (case filter (\<lambda>d. meta_slug d = [] \<and> meta_isIndex d) docs of
        [] \<Rightarrow> None
      | d # ds \<Rightarrow> Some (home_item locale (last (d # ds))))"
  by (simp add: sidebar_state_def sidebar_home_fold)

lemma four_docs_sorted:
  "0 < lc ''Banana'' ''Apple'' \<Longrightarrow>
   map nav_title (getSidebar lc locale four_docs) = [''Intro'', ''Apple'', ''Banana'', ''Zebra'']"
  by (simp add: getSidebar_def sidebar_state_def sidebar_step_def four_docs_def doc_meta_def
      attach_def children_of_def sortTree_def sort_by_def compare_items_def)

text \<open>
  Claim C2. For every locale and every consistent collation: in the list that
  \<open>getSidebar\<close> returns, the home node, when a document with the empty slug that is an
  index exists, is the first element whatever its order is, and the rest of the list
  is sorted by \<open>(order, title)\<close> ascending at every depth; without a home node the whole
  list is. Documents with the orders 9999, 2, 2, 1 and the titles Zebra, Banana, Apple,
  Intro come out as Intro, Apple, Banana, Zebra when the collation puts Apple before
  Banana.
\<close>

theorem getSidebar_sorted:
  "consistent lc \<Longrightarrow>
   (case filter (\<lambda>d. meta_slug d = [] \<and> meta_isIndex d) docs of
      [] \<Rightarrow> sorted_levels lc (getSidebar lc locale docs)
    | d # ds \<Rightarrow>
        getSidebar lc locale docs \<noteq> [] \<and>
        hd (getSidebar lc locale docs) = home_item locale (last (d # ds)) \<and>
        sorted_levels lc (tl (getSidebar lc locale docs)))
   \<and> (0 < lc ''Banana'' ''Apple'' \<longrightarrow>
        map nav_title (getSidebar lc locale four_docs) = [''Intro'', ''Apple'', ''Banana'', ''Zebra''])"
proof -
  assume c: "consistent lc"
  obtain root home where st: "sidebar_state locale docs = (root, home)"
    by (cases "sidebar_state locale docs")
  have h: "home = (case filter (\<lambda>d. meta_slug d = [] \<and> meta_isIndex d) docs of
        [] \<Rightarrow> None | d # ds \<Rightarrow> Some (home_item locale (last (d # ds))))"
    using sidebar_home[of "locale" docs] st by simp
  have s: "sorted_levels lc (case sortTree lc (nav_children root) of None \<Rightarrow> [] | Some xs \<Rightarrow> xs)"
    by (rule sortTree_levels[OF c])
  show ?thesis
    using h s st four_docs_sorted[of lc "locale"]
    by (auto simp: getSidebar_def split: list.splits option.splits)
qed

lemma consistent_unit_compare: "consistent unit_compare"
  unfolding consistent_def unit_compare_def by (auto split: if_splits)

text \<open>The statement for the order of the code units, at the example site (home page of
  the order 5000) and at the four documents.\<close>

theorem getSidebar_sorted_witness:
  "consistent unit_compare
   \<and> 0 < unit_compare ''Banana'' ''Apple''
   \<and> filter (\<lambda>d. meta_slug d = [] \<and> meta_isIndex d) site_docs = [doc_meta ''Home'' [] 5000 True]
   \<and> hd (getSidebar unit_compare Zh site_docs) = home_item Zh (doc_meta ''Home'' [] 5000 True)
   \<and> sorted_levels unit_compare (tl (getSidebar unit_compare Zh site_docs))
   \<and> map nav_order (getSidebar unit_compare Zh site_docs) = [5000, 1, 2, 2, 3, 9999, 9999]
   \<and> map nav_title (getSidebar unit_compare Zh four_docs) = [''Intro'', ''Apple'', ''Banana'', ''Zebra'']"
proof -
  have b: "0 < unit_compare ''Banana'' ''Apple''" by code_simp
  have f: "filter (\<lambda>d. meta_slug d = [] \<and> meta_isIndex d) site_docs = [doc_meta ''Home'' [] 5000 True]"
    by code_simp
  have o: "map nav_order (getSidebar unit_compare Zh site_docs) = [5000, 1, 2, 2, 3, 9999, 9999]"
    by code_simp
  from getSidebar_sorted[of unit_compare Zh site_docs, OF consistent_unit_compare]
    getSidebar_sorted[of unit_compare Zh four_docs, OF consistent_unit_compare]
  show ?thesis using b f o consistent_unit_compare by simp
qed

section \<open>Proofs: the pages\<close>

lemma parse_locale_key: "parse_locale (locale_key locale) = Some locale"
  by (cases "locale") (simp_all add: parse_locale_def)

lemma Page_default_notice: "Page_default e slug_param = Render r \<Longrightarrow> shell_notice r = None"
  by (auto simp: Page_default_def Let_def split: if_splits sum.splits option.splits)

text \<open>
  Claim C1, amended. For every locale other than the default and every requested slug
  other than \<open>intro\<close> (the empty slug stands for \<open>intro\<close>): when the default locale has
  the document and the requested locale has none, the locale's page renders the
  default locale's content and table of contents in the shell of the requested locale
  and passes the missing-translation notice; the default locale's page renders the same
  document with the notice unset, and no render of the default locale's page carries a
  notice.
\<close>

theorem locale_fallback:
  "locale \<noteq> DEFAULT_LOCALE \<Longrightarrow> slug_param \<noteq> [''intro''] \<Longrightarrow>
   getDoc e DEFAULT_LOCALE (resolved_slug slug_param) = Inr (Some d) \<Longrightarrow>
   getDoc e locale (resolved_slug slug_param) = Inr None \<Longrightarrow>
   Page_locale e (locale_key locale) slug_param =
     Render \<lparr>shell_locale = locale, shell_toc = doc_toc d,
             shell_slug = resolved_slug slug_param,
             shell_notice = Some (missingTranslation e locale),
             mdx_source = doc_content d,
             mdx_basePath = ''/'' @ locale_key locale @ ''/docs'',
             mdx_slug = resolved_slug slug_param,
             mdx_isIndex = doc_isIndex d,
             mdx_useMarkdownOnly = (hd (resolved_slug slug_param) = ''api'')\<rparr>
   \<and> Page_default e slug_param =
     Render \<lparr>shell_locale = DEFAULT_LOCALE, shell_toc = doc_toc d,
             shell_slug = resolved_slug slug_param,
             shell_notice = None,
             mdx_source = doc_content d,
             mdx_basePath = ''/docs'',
             mdx_slug = resolved_slug slug_param,
             mdx_isIndex = doc_isIndex d,
             mdx_useMarkdownOnly = (hd (resolved_slug slug_param) = ''api'')\<rparr>
   \<and> (\<forall>e' slug' r. Page_default e' slug' = Render r \<longrightarrow> shell_notice r = None)"
  by (simp add: Page_locale_def Page_default_def parse_locale_key Let_def Page_default_notice)

text \<open>The statement at the locale \<open>zh\<close> and the slug \<open>api/foo\<close>.\<close>

theorem locale_fallback_witness:
  "Zh \<noteq> DEFAULT_LOCALE \<and> [''api'', ''foo''] \<noteq> [''intro'']
   \<and> getDoc api_foo_env DEFAULT_LOCALE (resolved_slug [''api'', ''foo'']) = Inr (Some api_foo_doc)
   \<and> getDoc api_foo_env Zh (resolved_slug [''api'', ''foo'']) = Inr None
   \<and> Page_locale api_foo_env ''zh'' [''api'', ''foo''] =
       Render \<lparr>shell_locale = Zh, shell_toc = [], shell_slug = [''api'', ''foo''],
               shell_notice = Some ''This page is not yet translated. Showing English.'',
               mdx_source = ''# Foo'', mdx_basePath = ''/zh/docs'',
               mdx_slug = [''api'', ''foo''], mdx_isIndex = False,
               mdx_useMarkdownOnly = True\<rparr>
   \<and> Page_default api_foo_env [''api'', ''foo''] =
       Render \<lparr>shell_locale = En, shell_toc = [], shell_slug = [''api'', ''foo''],
               shell_notice = None,
               mdx_source = ''# Foo'', mdx_basePath = ''/docs'',
               mdx_slug = [''api'', ''foo''], mdx_isIndex = False,
               mdx_useMarkdownOnly = True\<rparr>"
proof -
  have l: "Zh \<noteq> DEFAULT_LOCALE" by (simp add: DEFAULT_LOCALE_def)
  have s: "[''api'', ''foo''] \<noteq> [''intro'']" by simp
  have rs: "resolved_slug [''api'', ''foo''] = [''api'', ''foo'']" by (simp add: resolved_slug_def)
  have d: "getDoc api_foo_env DEFAULT_LOCALE (resolved_slug [''api'', ''foo'']) = Inr (Some api_foo_doc)"
    by code_simp
  have n: "getDoc api_foo_env Zh (resolved_slug [''api'', ''foo'']) = Inr None"
    by code_simp
  have m: "missingTranslation api_foo_env Zh = ''This page is not yet translated. Showing English.''"
    by (simp add: api_foo_env_def site_def)
  from locale_fallback[OF l s d n] show ?thesis
    using l s d n by (simp add: rs m api_foo_doc_def DEFAULT_LOCALE_def)
qed

text \<open>
  The claim as written fails at the slug \<open>intro\<close>: the default locale has the document,
  the locale \<open>zh\<close> has none, and the page of \<open>zh\<close> redirects to \<open>/zh/docs\<close> instead of
  rendering.
\<close>

theorem locale_fallback_intro_counterexample:
  "Zh \<noteq> DEFAULT_LOCALE
   \<and> getDoc intro_env DEFAULT_LOCALE [''intro''] = Inr (Some intro_doc)
   \<and> getDoc intro_env Zh [''intro''] = Inr None
   \<and> Page_locale intro_env ''zh'' [''intro''] = Redirect ''/zh/docs''"
  by code_simp

end
